theory Spec2Isabelle
  imports Main "HOL-Library.Word" "HOL-Library.Sublist"
begin

section \<open>JavaScript strings\<close>

text \<open>
  A JavaScript string is a sequence of UTF-16 code units. The functions of
  \<^verbatim>\<open>src/daemon.ts\<close> and \<^verbatim>\<open>src/client.ts\<close> that are modelled here work on
  such strings. Literals of the source are written \<open>js ''...''\<close>. The output of
  the child process arrives as buffers of bytes; their decoding is \<open>Buffer_toString\<close>
  below.
\<close>

type_synonym jschar = "16 word"
type_synonym jsstring = "jschar list"

definition js :: "string \<Rightarrow> jsstring" where
  "js s = map of_char s"

abbreviation LF :: jschar where
  "LF \<equiv> 0x0A"

abbreviation EQUALS :: jschar where
  "EQUALS \<equiv> 0x3D"

abbreviation LOWER_S :: jschar where
  "LOWER_S \<equiv> 0x73"

text \<open>
  The characters removed by \<^verbatim>\<open>String.prototype.trim\<close> and \<^verbatim>\<open>trimEnd\<close>: the
  WhiteSpace and LineTerminator productions of ECMAScript (TAB, VT, FF, SP, NBSP,
  ZWNBSP, the Unicode space separators, LF, CR, LS, PS).
\<close>

definition isWhiteSpace :: "jschar \<Rightarrow> bool" where
  "isWhiteSpace c \<longleftrightarrow>
     c \<in> {0x09, 0x0A, 0x0B, 0x0C, 0x0D, 0x20, 0xA0, 0x1680, 0x2028, 0x2029,
          0x202F, 0x205F, 0x3000, 0xFEFF}
     \<or> (0x2000 \<le> c \<and> c \<le> 0x200A)"

definition trimEnd :: "jsstring \<Rightarrow> jsstring" where
  "trimEnd s = rev (dropWhile isWhiteSpace (rev s))"

definition trimStart :: "jsstring \<Rightarrow> jsstring" where
  "trimStart s = dropWhile isWhiteSpace s"

definition trim :: "jsstring \<Rightarrow> jsstring" where
  "trim s = trimEnd (trimStart s)"

text \<open>\<^verbatim>\<open>s.includes(pat)\<close>: \<open>pat\<close> occurs in \<open>s\<close> as a contiguous substring.\<close>

fun includes_js :: "jsstring \<Rightarrow> jsstring \<Rightarrow> bool" where
  "includes_js [] pat = (pat = [])"
| "includes_js (c # cs) pat = (prefix pat (c # cs) \<or> includes_js cs pat)"

text \<open>
  \<^verbatim>\<open>s.split('\n')\<close>: the segments between line feeds. The result is never empty; its
  last element is the text after the last line feed.
\<close>

fun split :: "jsstring \<Rightarrow> jsstring list" where
  "split [] = [[]]"
| "split (c # cs) =
     (if c = LF then [] # split cs
      else (case split cs of [] \<Rightarrow> [[c]] | l # ls \<Rightarrow> (c # l) # ls))"

subsection \<open>The regular expressions of \<^verbatim>\<open>handleLine\<close>\<close>

text \<open>\<^verbatim>\<open>\d\<close> is an ASCII digit.\<close>

definition isDigit :: "jschar \<Rightarrow> bool" where
  "isDigit c \<longleftrightarrow> 0x30 \<le> c \<and> c \<le> 0x39"

text \<open>
  \<^verbatim>\<open>parseInt(s, 10)\<close> on a capture of \<^verbatim>\<open>(\d+)\<close>: the value of the decimal digits.
  (The source computes it in double precision; the only use of the result is the test
  \<^verbatim>\<open>> 0\<close>, which rounding does not change.)
\<close>

definition parseInt :: "jsstring \<Rightarrow> nat" where
  "parseInt s = fold (\<lambda>c n. 10 * n + (unat c - 48)) (takeWhile isDigit s) 0"

definition stripPrefix :: "jsstring \<Rightarrow> jsstring \<Rightarrow> jsstring option" where
  "stripPrefix p s = (if prefix p s then Some (drop (length p) s) else None)"

text \<open>An optional character (\<^verbatim>\<open>s?\<close>, \<^verbatim>\<open>\n?\<close>), matched greedily.\<close>

definition optChar :: "jschar \<Rightarrow> jsstring \<Rightarrow> jsstring" where
  "optChar c s = (case s of [] \<Rightarrow> [] | x # r \<Rightarrow> if x = c then r else s)"

text \<open>
  \<^verbatim>\<open>/svelte-check found (\d+) errors? and (\d+) warnings?/\<close> tried at the start of
  \<open>s\<close>; the result is the two captures. Each \<^verbatim>\<open>\d+\<close> is greedy and is followed by a
  space in the pattern, so it can only take the whole run of digits; an optional
  \<^verbatim>\<open>s\<close> is followed by a space or by the end of the pattern, so giving it back never
  makes a failed attempt succeed. The attempt is therefore deterministic.
\<close>

definition summaryMatchAt :: "jsstring \<Rightarrow> (jsstring \<times> jsstring) option" where
  "summaryMatchAt s =
     (case stripPrefix (js ''svelte-check found '') s of
        None \<Rightarrow> None
      | Some r1 \<Rightarrow>
          let g1 = takeWhile isDigit r1; r2 = dropWhile isDigit r1 in
          if g1 = [] then None
          else (case stripPrefix (js '' error'') r2 of
             None \<Rightarrow> None
           | Some r3 \<Rightarrow>
               (case stripPrefix (js '' and '') (optChar LOWER_S r3) of
                  None \<Rightarrow> None
                | Some r4 \<Rightarrow>
                    let g2 = takeWhile isDigit r4; r5 = dropWhile isDigit r4 in
                    if g2 = [] then None
                    else (case stripPrefix (js '' warning'') r5 of
                       None \<Rightarrow> None
                     | Some r6 \<Rightarrow> Some (g1, g2)))))"

text \<open>\<^verbatim>\<open>line.match(...)\<close> without the \<^verbatim>\<open>g\<close> flag: the leftmost position that matches.\<close>

fun summaryMatch :: "jsstring \<Rightarrow> (jsstring \<times> jsstring) option" where
  "summaryMatch [] = None"
| "summaryMatch (c # cs) =
     (case summaryMatchAt (c # cs) of
        Some m \<Rightarrow> Some m
      | None \<Rightarrow> summaryMatch cs)"

text \<open>
  \<^verbatim>\<open>.replace(/={36,}\n?/g, '')\<close>: scanning from the left, a run of at least 36 equals
  signs is taken whole (the quantifier is greedy and what follows it can match the empty
  string), together with one line feed directly after it, and removed; the scan goes
  on after the removed text.
\<close>

function removeSeparators :: "jsstring \<Rightarrow> jsstring" where
  "removeSeparators s =
     (if s = [] then []
      else if 36 \<le> length (takeWhile (\<lambda>c. c = EQUALS) s)
      then removeSeparators (optChar LF (dropWhile (\<lambda>c. c = EQUALS) s))
      else hd s # removeSeparators (tl s))"
  by pat_completeness auto

text \<open>\<^verbatim>\<open>.replace(/Watching for file changes\.\.\.\n?/g, '')\<close>.\<close>

function removeWatching :: "jsstring \<Rightarrow> jsstring" where
  "removeWatching s =
     (if s = [] then []
      else (case stripPrefix (js ''Watching for file changes...'') s of
              Some r \<Rightarrow> removeWatching (optChar LF r)
            | None \<Rightarrow> hd s # removeWatching (tl s)))"
  by pat_completeness auto

lemma length_optChar: "length (optChar c s) \<le> length s"
  by (simp add: optChar_def split: list.splits)

lemma length_dropWhile_run:
  "takeWhile P s \<noteq> [] \<Longrightarrow> length (dropWhile P s) < length s"
  by (cases s) (auto simp: less_Suc_eq_le length_dropWhile_le split: if_splits)

termination removeSeparators
proof (relation "measure length", goal_cases)
  case 1
  show ?case by simp
next
  case (2 s)
  then have "length (dropWhile (\<lambda>c. c = EQUALS) s) < length s"
    by (intro length_dropWhile_run) auto
  with length_optChar [of LF "dropWhile (\<lambda>c. c = EQUALS) s"] show ?case
    by simp
next
  case (3 s)
  then show ?case by (cases s) simp_all
qed

lemma watching_nonempty: "js ''Watching for file changes...'' \<noteq> []"
  by (simp add: js_def)

termination removeWatching
proof (relation "measure length", goal_cases)
  case 1
  show ?case by simp
next
  case (2 s)
  then show ?case by (cases s) simp_all
next
  case (3 s r)
  then have "length r < length s"
    using watching_nonempty
    by (auto simp: stripPrefix_def prefix_def split: if_splits)
  with length_optChar [of LF r] show ?case
    by simp
qed

declare removeSeparators.simps [simp del]
declare removeWatching.simps [simp del]

section \<open>The daemon's state\<close>

text \<open>
  \<^verbatim>\<open>interface DaemonState\<close>: the snapshot served to clients. Its field
  \<^verbatim>\<open>output\<close> is \<open>outputText\<close> here, and \<^verbatim>\<open>lastUpdate\<close> is a number of
  milliseconds.
\<close>

record DaemonState =
  outputText :: jsstring
  hasErrors :: bool
  hasWarnings :: bool
  isComplete :: bool
  lastUpdate :: nat

text \<open>
  What the daemon asks of the operating system: \<^verbatim>\<open>spawn('svelte-check', args, {cwd})\<close>
  with its arguments and working directory, and \<^verbatim>\<open>kill()\<close> on a child-process
  handle. The handle of a child process is the position of its spawn in the list of
  calls.
\<close>

datatype syscall = Spawn "jsstring list" jsstring | Kill nat

text \<open>
  The fields of \<^verbatim>\<open>class SvelteCheckDaemon\<close> that the parser, the supervisor and the
  big-changes watcher use, and \<open>syscalls\<close>, the calls made so far, oldest first.
\<close>

record SvelteCheckDaemon =
  lastCompleteState :: DaemonState
  svelteCheckProcess :: "nat option"
  currentOutput :: jsstring
  lineBuffer :: jsstring
  workspacePath :: jsstring
  tsconfigPath :: "jsstring option"
  knownFiles :: "jsstring set"
  syscalls :: "syscall list"

text \<open>
  The field initialisers and the constructor. \<^verbatim>\<open>Date.now()\<close> is an argument,
  \<open>now\<close>, here and in every function that reads the clock: one reading for each
  callback of the event loop.
\<close>

definition emptyState :: "nat \<Rightarrow> DaemonState" where
  "emptyState now =
     \<lparr>outputText = [], hasErrors = False, hasWarnings = False, isComplete = False,
      lastUpdate = now\<rparr>"

definition newDaemon :: "nat \<Rightarrow> jsstring \<Rightarrow> jsstring option \<Rightarrow> SvelteCheckDaemon" where
  "newDaemon now ws ts =
     \<lparr>lastCompleteState = emptyState now, svelteCheckProcess = None,
      currentOutput = [], lineBuffer = [], workspacePath = ws, tsconfigPath = ts,
      knownFiles = {}, syscalls = []\<rparr>"

section \<open>The output parser\<close>

definition handleLine :: "nat \<Rightarrow> jsstring \<Rightarrow> SvelteCheckDaemon \<Rightarrow> SvelteCheckDaemon" where
  "handleLine now line this =
     (let this1 = this\<lparr>currentOutput := currentOutput this @ line @ [LF]\<rparr> in
      case summaryMatch line of
        None \<Rightarrow> this1
      | Some (g1, g2) \<Rightarrow>
          let errorCount = parseInt g1;
              warningCount = parseInt g2;
              out = trimEnd (removeWatching (removeSeparators (currentOutput this1)))
          in this1\<lparr>lastCompleteState :=
                      \<lparr>outputText = out, hasErrors = 0 < errorCount,
                       hasWarnings = 0 < warningCount, isComplete = True,
                       lastUpdate = now\<rparr>,
                    currentOutput := []\<rparr>)"

text \<open>The three steps of \<^verbatim>\<open>handleOutput\<close>, in the order of the source.\<close>

definition cycleStarted :: "jsstring" where
  "cycleStarted = js ''Getting Svelte diagnostics...''"

definition markCycleStarted :: "nat \<Rightarrow> jsstring \<Rightarrow> SvelteCheckDaemon \<Rightarrow> SvelteCheckDaemon" where
  "markCycleStarted now data this =
     (if includes_js data cycleStarted
      then this\<lparr>lastCompleteState :=
                  (lastCompleteState this)\<lparr>isComplete := False, lastUpdate := now\<rparr>\<rparr>
      else this)"

text \<open>
  \<^verbatim>\<open>this.lineBuffer += data; lines = this.lineBuffer.split('\n');
  this.lineBuffer = lines.pop() ?? ''\<close>: the complete lines, and the daemon holding the
  unterminated rest.
\<close>

definition takeLines :: "jsstring \<Rightarrow> SvelteCheckDaemon \<Rightarrow> jsstring list \<times> SvelteCheckDaemon" where
  "takeLines data this =
     (let lines = split (lineBuffer this @ data) in
      (butlast lines, this\<lparr>lineBuffer := (if lines = [] then [] else last lines)\<rparr>))"

definition handleOutput :: "nat \<Rightarrow> jsstring \<Rightarrow> SvelteCheckDaemon \<Rightarrow> SvelteCheckDaemon" where
  "handleOutput now data this =
     (let (lines, this1) = takeLines data (markCycleStarted now data this)
      in fold (handleLine now) lines this1)"

subsection \<open>What the parser writes to the snapshot\<close>

text \<open>
  The snapshots that \<^verbatim>\<open>handleLine\<close> commits while a list of lines is processed:
  one for each line that matches the summary pattern, in order. \<open>finalizedBy\<close> is
  the list for one call of \<^verbatim>\<open>handleOutput\<close>, \<open>finalizedFeed\<close> for a list of
  calls, each with the reading of the clock; \<open>feed\<close> is the daemon after the calls.
  \<open>snapshotView\<close> leaves \<^verbatim>\<open>lastUpdate\<close> out of a snapshot.
\<close>

fun finalizedByLines :: "nat \<Rightarrow> jsstring list \<Rightarrow> SvelteCheckDaemon \<Rightarrow> DaemonState list" where
  "finalizedByLines now [] this = []"
| "finalizedByLines now (line # lines) this =
     (if summaryMatch line = None then [] else [lastCompleteState (handleLine now line this)])
     @ finalizedByLines now lines (handleLine now line this)"

definition finalizedBy :: "nat \<Rightarrow> jsstring \<Rightarrow> SvelteCheckDaemon \<Rightarrow> DaemonState list" where
  "finalizedBy now data this =
     (let (lines, this1) = takeLines data (markCycleStarted now data this)
      in finalizedByLines now lines this1)"

fun feed :: "SvelteCheckDaemon \<Rightarrow> (nat \<times> jsstring) list \<Rightarrow> SvelteCheckDaemon" where
  "feed this [] = this"
| "feed this ((now, data) # chunks) = feed (handleOutput now data this) chunks"

fun finalizedFeed :: "SvelteCheckDaemon \<Rightarrow> (nat \<times> jsstring) list \<Rightarrow> DaemonState list" where
  "finalizedFeed this [] = []"
| "finalizedFeed this ((now, data) # chunks) =
     finalizedBy now data this @ finalizedFeed (handleOutput now data this) chunks"

definition snapshotView :: "DaemonState \<Rightarrow> jsstring \<times> bool \<times> bool \<times> bool" where
  "snapshotView s = (outputText s, hasErrors s, hasWarnings s, isComplete s)"

subsection \<open>The buffers of the output streams\<close>

text \<open>
  The listeners that \<^verbatim>\<open>startSvelteCheck\<close> puts on the two output streams of the child
  process receive a \<^verbatim>\<open>Buffer\<close> and give \<^verbatim>\<open>data.toString()\<close> to \<^verbatim>\<open>handleOutput\<close>.
  \<^verbatim>\<open>Buffer.prototype.toString()\<close> decodes UTF-8, each buffer on its own. Bytes that are
  not well-formed UTF-8, also a character that the end of the buffer cuts short, become
  U+FFFD, one for each longest prefix of a well-formed sequence and one for each byte
  that starts none (the decoder of the WHATWG Encoding Standard, which keeps a byte order
  mark here). A code point above U+FFFF becomes a surrogate pair.
\<close>

type_synonym byte = "8 word"

abbreviation REPLACEMENT :: jschar where
  "REPLACEMENT \<equiv> 0xFFFD"

definition utf16 :: "nat \<Rightarrow> jsstring" where
  "utf16 cp =
     (if cp < 0x10000 then [of_nat cp]
      else [of_nat (0xD800 + (cp - 0x10000) div 0x400),
            of_nat (0xDC00 + (cp - 0x10000) mod 0x400)])"

datatype leadByte = Single | Lead2 | Lead3 | Lead4 | NoLead

definition leadOf :: "byte \<Rightarrow> leadByte" where
  "leadOf b =
     (if b < 0x80 then Single
      else if 0xC2 \<le> b \<and> b \<le> 0xDF then Lead2
      else if 0xE0 \<le> b \<and> b \<le> 0xEF then Lead3
      else if 0xF0 \<le> b \<and> b \<le> 0xF4 then Lead4
      else NoLead)"

definition continuation :: "byte \<Rightarrow> byte \<Rightarrow> byte \<Rightarrow> bool" where
  "continuation lower upper c \<longleftrightarrow> lower \<le> c \<and> c \<le> upper"

definition lowerBoundary :: "byte \<Rightarrow> byte" where
  "lowerBoundary b = (if b = 0xE0 then 0xA0 else if b = 0xF0 then 0x90 else 0x80)"

definition upperBoundary :: "byte \<Rightarrow> byte" where
  "upperBoundary b = (if b = 0xED then 0x9F else if b = 0xF4 then 0x8F else 0xBF)"

fun Buffer_toString :: "byte list \<Rightarrow> jsstring" where
  "Buffer_toString [] = []"
| "Buffer_toString (b # bs) =
     (case leadOf b of
        Single \<Rightarrow> ucast b # Buffer_toString bs
      | NoLead \<Rightarrow> REPLACEMENT # Buffer_toString bs
      | Lead2 \<Rightarrow>
          (case bs of
             [] \<Rightarrow> [REPLACEMENT]
           | c1 # r1 \<Rightarrow>
               if continuation 0x80 0xBF c1
               then utf16 ((unat b - 0xC0) * 0x40 + (unat c1 - 0x80)) @ Buffer_toString r1
               else REPLACEMENT # Buffer_toString bs)
      | Lead3 \<Rightarrow>
          (case bs of
             [] \<Rightarrow> [REPLACEMENT]
           | c1 # r1 \<Rightarrow>
               if continuation (lowerBoundary b) (upperBoundary b) c1
               then (case r1 of
                       [] \<Rightarrow> [REPLACEMENT]
                     | c2 # r2 \<Rightarrow>
                         if continuation 0x80 0xBF c2
                         then utf16 ((unat b - 0xE0) * 0x1000 + (unat c1 - 0x80) * 0x40
                                     + (unat c2 - 0x80)) @ Buffer_toString r2
                         else REPLACEMENT # Buffer_toString r1)
               else REPLACEMENT # Buffer_toString bs)
      | Lead4 \<Rightarrow>
          (case bs of
             [] \<Rightarrow> [REPLACEMENT]
           | c1 # r1 \<Rightarrow>
               if continuation (lowerBoundary b) (upperBoundary b) c1
               then (case r1 of
                       [] \<Rightarrow> [REPLACEMENT]
                     | c2 # r2 \<Rightarrow>
                         if continuation 0x80 0xBF c2
                         then (case r2 of
                                 [] \<Rightarrow> [REPLACEMENT]
                               | c3 # r3 \<Rightarrow>
                                   if continuation 0x80 0xBF c3
                                   then utf16 ((unat b - 0xF0) * 0x40000
                                               + (unat c1 - 0x80) * 0x1000
                                               + (unat c2 - 0x80) * 0x40
                                               + (unat c3 - 0x80)) @ Buffer_toString r3
                                   else REPLACEMENT # Buffer_toString r2)
                         else REPLACEMENT # Buffer_toString r1)
               else REPLACEMENT # Buffer_toString bs))"

text \<open>
  A buffer of whole characters: well-formed UTF-8, with no character cut short at its
  end and no byte left over from a character at its start.
\<close>

fun wholeCharacters :: "byte list \<Rightarrow> bool" where
  "wholeCharacters [] = True"
| "wholeCharacters (b # bs) =
     (case leadOf b of
        Single \<Rightarrow> wholeCharacters bs
      | NoLead \<Rightarrow> False
      | Lead2 \<Rightarrow>
          (case bs of
             c1 # r1 \<Rightarrow> continuation 0x80 0xBF c1 \<and> wholeCharacters r1
           | _ \<Rightarrow> False)
      | Lead3 \<Rightarrow>
          (case bs of
             c1 # c2 # r2 \<Rightarrow>
               continuation (lowerBoundary b) (upperBoundary b) c1
               \<and> continuation 0x80 0xBF c2 \<and> wholeCharacters r2
           | _ \<Rightarrow> False)
      | Lead4 \<Rightarrow>
          (case bs of
             c1 # c2 # c3 # r3 \<Rightarrow>
               continuation (lowerBoundary b) (upperBoundary b) c1
               \<and> continuation 0x80 0xBF c2 \<and> continuation 0x80 0xBF c3
               \<and> wholeCharacters r3
           | _ \<Rightarrow> False))"

text \<open>The bytes of an ASCII literal.\<close>

definition utf8 :: "string \<Rightarrow> byte list" where
  "utf8 s = map of_char s"

text \<open>
  The \<^verbatim>\<open>'data'\<close> listener of the output streams, the daemon after a list of buffers
  (each with the reading of the clock at its arrival), and the snapshots committed on
  the way.
\<close>

definition startSvelteCheck_onData :: "nat \<Rightarrow> byte list \<Rightarrow> SvelteCheckDaemon \<Rightarrow> SvelteCheckDaemon" where
  "startSvelteCheck_onData now data this = handleOutput now (Buffer_toString data) this"

fun run :: "SvelteCheckDaemon \<Rightarrow> (nat \<times> byte list) list \<Rightarrow> SvelteCheckDaemon" where
  "run this [] = this"
| "run this ((now, data) # chunks) = run (startSvelteCheck_onData now data this) chunks"

fun finalizedRun :: "SvelteCheckDaemon \<Rightarrow> (nat \<times> byte list) list \<Rightarrow> DaemonState list" where
  "finalizedRun this [] = []"
| "finalizedRun this ((now, data) # chunks) =
     finalizedBy now (Buffer_toString data) this
     @ finalizedRun (startSvelteCheck_onData now data this) chunks"

subsection \<open>The cleaning of the output, line by line\<close>

text \<open>
  The text that \<^verbatim>\<open>handleLine\<close> accumulates is a list of lines, each followed by a
  line feed. \<open>spec_cleanedOutput\<close> follows the words of the specification, for
  comparison with the regular expressions of the source: the separator lines (lines of
  nothing but equals signs, at least 36 of them) and the footer lines
  \<^verbatim>\<open>Watching for file changes...\<close> are left out, and trailing whitespace is trimmed.
\<close>

definition unlines_js :: "jsstring list \<Rightarrow> jsstring" where
  "unlines_js ls = concat (map (\<lambda>l. l @ [LF]) ls)"

definition separatorRun :: jsstring where
  "separatorRun = replicate 36 EQUALS"

definition watchingFooter :: jsstring where
  "watchingFooter = js ''Watching for file changes...''"

definition isSeparatorLine :: "jsstring \<Rightarrow> bool" where
  "isSeparatorLine l \<longleftrightarrow> 36 \<le> length l \<and> (\<forall>c \<in> set l. c = EQUALS)"

definition spec_cleanedOutput :: "jsstring list \<Rightarrow> jsstring" where
  "spec_cleanedOutput ls =
     trimEnd (unlines_js (filter (\<lambda>l. \<not> isSeparatorLine l \<and> l \<noteq> watchingFooter) ls))"

section \<open>Paths and the file system\<close>

text \<open>
  \<^verbatim>\<open>path.join\<close> is an argument, \<open>pathJoin\<close>, of the functions that call it, and the
  file system is the set \<open>files\<close> of the paths that exist:
  \<^verbatim>\<open>fs.existsSync(p)\<close> is \<open>p \<in> files\<close>. \<open>posixJoin\<close> is \<^verbatim>\<open>path.join\<close> on segments
  that are already normal (no empty, \<^verbatim>\<open>.\<close> or \<^verbatim>\<open>..\<close> segment, no trailing slash),
  where it puts a slash between the segments; it is the instance used in examples.
\<close>

definition posixJoin :: "jsstring list \<Rightarrow> jsstring" where
  "posixJoin segments =
     (case segments of [] \<Rightarrow> js ''.'' | s # ss \<Rightarrow> s @ concat (map (\<lambda>t. js ''/'' @ t) ss))"

definition getSocketPath :: "(jsstring list \<Rightarrow> jsstring) \<Rightarrow> jsstring \<Rightarrow> jsstring" where
  "getSocketPath pathJoin workspace =
     pathJoin [workspace, js ''node_modules'', js ''.svelte-check-daemon.sock'']"

section \<open>The process supervisor\<close>

text \<open>
  \<^verbatim>\<open>startSvelteCheck\<close>: the arguments (\<^verbatim>\<open>if (this.tsconfigPath)\<close> is false for
  \<^verbatim>\<open>undefined\<close> and for the empty string), the spawn, and the new handle. The
  listeners it registers are \<open>handleOutput\<close> for the two output streams.
\<close>

definition svelteCheckArgs :: "SvelteCheckDaemon \<Rightarrow> jsstring list" where
  "svelteCheckArgs this =
     [js ''--watch'', js ''--preserveWatchOutput'', js ''--output'', js ''human-verbose'']
     @ (case tsconfigPath this of
          None \<Rightarrow> []
        | Some p \<Rightarrow> if p = [] then [] else [js ''--tsconfig'', p])"

definition startSvelteCheck :: "SvelteCheckDaemon \<Rightarrow> SvelteCheckDaemon" where
  "startSvelteCheck this =
     this\<lparr>svelteCheckProcess := Some (length (syscalls this)),
          syscalls := syscalls this @ [Spawn (svelteCheckArgs this) (workspacePath this)]\<rparr>"

definition restartSvelteCheck :: "nat \<Rightarrow> SvelteCheckDaemon \<Rightarrow> SvelteCheckDaemon" where
  "restartSvelteCheck now this =
     (let this1 = (case svelteCheckProcess this of
                     Some h \<Rightarrow> this\<lparr>syscalls := syscalls this @ [Kill h],
                                    svelteCheckProcess := None\<rparr>
                   | None \<Rightarrow> this)
      in startSvelteCheck
           (this1\<lparr>currentOutput := [], lineBuffer := [],
                  lastCompleteState := emptyState now\<rparr>))"

section \<open>The big-changes watcher\<close>

text \<open>
  The callback that \<^verbatim>\<open>startBigChangesWatcher\<close> gives to \<^verbatim>\<open>fs.watch\<close>. The event
  type is a string, \<^verbatim>\<open>'rename'\<close> or \<^verbatim>\<open>'change'\<close>; the file name may be \<^verbatim>\<open>null\<close>, and
  \<^verbatim>\<open>if (!filename) return\<close> also leaves on the empty string.
\<close>

definition onBigChange ::
  "jsstring set \<Rightarrow> (jsstring list \<Rightarrow> jsstring) \<Rightarrow> nat \<Rightarrow> jsstring \<Rightarrow>
   jsstring \<Rightarrow> jsstring option \<Rightarrow> SvelteCheckDaemon \<Rightarrow> SvelteCheckDaemon" where
  "onBigChange files pathJoin now absoluteWatchDir eventType filename this =
     (case filename of
        None \<Rightarrow> this
      | Some name \<Rightarrow>
          if name = [] then this
          else
            let fullPath = pathJoin [absoluteWatchDir, name] in
            if eventType = js ''rename'' then
              (if fullPath \<in> files
               then this\<lparr>knownFiles := insert fullPath (knownFiles this)\<rparr>
               else if fullPath \<in> knownFiles this
               then restartSvelteCheck now (this\<lparr>knownFiles := knownFiles this - {fullPath}\<rparr>)
               else this)
            else this)"

section \<open>The socket server\<close>

text \<open>
  The \<^verbatim>\<open>'data'\<close> listener of \<^verbatim>\<open>startServer\<close>, with the calls it makes on the socket.
  \<^verbatim>\<open>socket.write(JSON.stringify(s))\<close> is \<open>Write_JSON s\<close>: the value that is serialised
  is recorded, the serialisation itself is not modelled. The listener runs once for each
  chunk the socket delivers.
\<close>

datatype socketCall = Write_JSON DaemonState | End_socket

definition getState :: "SvelteCheckDaemon \<Rightarrow> DaemonState" where
  "getState this = lastCompleteState this"

definition startServer_onData :: "jsstring \<Rightarrow> SvelteCheckDaemon \<Rightarrow> socketCall list" where
  "startServer_onData data this =
     (let request = trim data in
      if request = js ''GET_STATUS'' then [Write_JSON (getState this), End_socket] else [])"

section \<open>The client\<close>

text \<open>
  \<^verbatim>\<open>getStatusFromDaemon\<close> returns a promise. Its state is the promise (\<open>None\<close> while
  pending, \<open>Some None\<close> resolved with \<^verbatim>\<open>null\<close>, \<open>Some (Some v)\<close> resolved with the
  value \<open>v\<close>), the socket, the 5-second timer, the text received and the requests
  written. When the socket file is missing nothing is created. Otherwise
  \<^verbatim>\<open>net.createConnection\<close> makes the socket and \<^verbatim>\<open>setTimeout\<close> starts the timer, and the
  listeners run as the events of the socket and the timer arrive, one \<open>step\<close> for
  each.

  A socket is \<open>Closed\<close> once the peer has ended it (the socket is created without
  \<^verbatim>\<open>allowHalfOpen\<close>, so the runtime then ends and destroys the client's side), once it has
  failed (the runtime destroys it after \<^verbatim>\<open>'error'\<close>), or once \<^verbatim>\<open>socket.destroy()\<close> has
  been called; a closed socket emits no more \<^verbatim>\<open>'connect'\<close>, \<^verbatim>\<open>'data'\<close>, \<^verbatim>\<open>'end'\<close> or
  \<^verbatim>\<open>'error'\<close>. The timer fires once. \<^verbatim>\<open>JSON.parse\<close> is an argument: \<open>None\<close> where it
  throws. A promise is resolved by the first call of \<^verbatim>\<open>resolve\<close>; later calls do
  nothing. The source has no call of \<^verbatim>\<open>clearTimeout\<close>.
\<close>

datatype socketState = NoSocket | Open | Closed

record 'v query =
  promise :: "'v option option"
  socket :: socketState
  timerPending :: bool
  received :: jsstring
  sent :: "jsstring list"

definition getStatusFromDaemon ::
  "jsstring set \<Rightarrow> (jsstring list \<Rightarrow> jsstring) \<Rightarrow> jsstring \<Rightarrow> 'v query" where
  "getStatusFromDaemon files pathJoin workspace =
     (if getSocketPath pathJoin workspace \<notin> files
      then \<lparr>promise = Some None, socket = NoSocket, timerPending = False,
            received = [], sent = []\<rparr>
      else \<lparr>promise = None, socket = Open, timerPending = True,
            received = [], sent = []\<rparr>)"

definition resolve :: "'v option \<Rightarrow> 'v query \<Rightarrow> 'v query" where
  "resolve v q = (if promise q = None then q\<lparr>promise := Some v\<rparr> else q)"

datatype event = Connect | Data jsstring | End | Error | Timeout

fun step :: "(jsstring \<Rightarrow> 'v option) \<Rightarrow> event \<Rightarrow> 'v query \<Rightarrow> 'v query" where
  "step JSON_parse Connect q =
     (if socket q = Open then q\<lparr>sent := sent q @ [js ''GET_STATUS'']\<rparr> else q)"
| "step JSON_parse (Data chunk) q =
     (if socket q = Open then q\<lparr>received := received q @ chunk\<rparr> else q)"
| "step JSON_parse End q =
     (if socket q = Open then resolve (JSON_parse (received q)) (q\<lparr>socket := Closed\<rparr>) else q)"
| "step JSON_parse Error q =
     (if socket q = Open then resolve None (q\<lparr>socket := Closed\<rparr>) else q)"
| "step JSON_parse Timeout q =
     (if timerPending q
      then resolve None
             (q\<lparr>socket := (if socket q = Open then Closed else socket q),
                timerPending := False\<rparr>)
      else q)"

text \<open>
  What holds of the state of a query after any events: while the promise is pending the
  socket is open and the timer is pending; once it is resolved the socket is closed.
\<close>

definition settled :: "'v query \<Rightarrow> bool" where
  "settled q \<longleftrightarrow>
     (promise q = None \<longrightarrow> socket q = Open \<and> timerPending q)
     \<and> (promise q \<noteq> None \<longrightarrow> socket q = Closed)"

section \<open>Properties of the output parser\<close>

lemma split_nonempty: "split s \<noteq> []"
  by (induction s) (auto split: list.splits)

lemma split_append:
  "split (a @ b) = butlast (split a) @ split (last (split a) @ b)"
proof (induction a)
  case Nil
  show ?case by simp
next
  case (Cons c cs)
  show ?case
  proof (cases "c = LF")
    case True
    with Cons split_nonempty [of cs] show ?thesis by simp
  next
    case False
    obtain l ls where ls: "split cs = l # ls"
      using split_nonempty [of cs] by (cases "split cs") auto
    show ?thesis
    proof (cases ls)
      case Nil
      with False ls Cons show ?thesis by simp
    next
      case (Cons m ms)
      with False ls Cons.IH show ?thesis by simp
    qed
  qed
qed

lemma split_no_LF: "LF \<notin> set s \<Longrightarrow> split s = [s]"
  by (induction s) auto

lemma last_split_no_LF: "LF \<notin> set (last (split s))"
proof (induction s)
  case Nil
  show ?case by simp
next
  case (Cons c cs)
  then show ?case
    using split_nonempty [of cs] by (cases "split cs") (auto split: if_splits)
qed

lemma lineBuffer_handleLine [simp]:
  "lineBuffer (handleLine now line this) = lineBuffer this"
  by (simp add: handleLine_def Let_def split: option.splits prod.splits)

lemma lineBuffer_fold_handleLine [simp]:
  "lineBuffer (fold (handleLine now) ls this) = lineBuffer this"
  by (induction ls arbitrary: this) simp_all

lemma currentOutput_handleLine:
  "currentOutput (handleLine now line this) =
     (if summaryMatch line = None then currentOutput this @ line @ [LF] else [])"
  by (simp add: handleLine_def Let_def split: option.splits prod.splits)

lemma view_handleLine:
  "summaryMatch line = Some (g1, g2) \<Longrightarrow>
   snapshotView (lastCompleteState (handleLine now line this)) =
     (trimEnd (removeWatching (removeSeparators (currentOutput this @ line @ [LF]))),
      0 < parseInt g1, 0 < parseInt g2, True)"
  by (simp add: handleLine_def Let_def snapshotView_def)

lemma currentOutput_fold_cong:
  "currentOutput a = currentOutput b \<Longrightarrow>
   currentOutput (fold (handleLine n1) ls a) = currentOutput (fold (handleLine n2) ls b)"
proof (induction ls arbitrary: a b)
  case Nil
  then show ?case by simp
next
  case (Cons l ls)
  have "currentOutput (handleLine n1 l a) = currentOutput (handleLine n2 l b)"
    using Cons.prems by (simp add: currentOutput_handleLine)
  from Cons.IH [OF this] show ?case by simp
qed

lemma finalizedByLines_cong:
  "currentOutput a = currentOutput b \<Longrightarrow>
   map snapshotView (finalizedByLines n1 ls a) = map snapshotView (finalizedByLines n2 ls b)"
proof (induction ls arbitrary: a b)
  case Nil
  then show ?case by simp
next
  case (Cons l ls)
  have co: "currentOutput (handleLine n1 l a) = currentOutput (handleLine n2 l b)"
    using Cons.prems by (simp add: currentOutput_handleLine)
  have hd: "summaryMatch l \<noteq> None \<Longrightarrow>
      snapshotView (lastCompleteState (handleLine n1 l a)) =
      snapshotView (lastCompleteState (handleLine n2 l b))"
    using Cons.prems by (auto simp: view_handleLine)
  from Cons.IH [OF co] hd show ?case by simp
qed

lemma finalizedByLines_append:
  "finalizedByLines now (xs @ ys) this =
     finalizedByLines now xs this @ finalizedByLines now ys (fold (handleLine now) xs this)"
  by (induction xs arbitrary: this) simp_all

lemma currentOutput_markCycleStarted [simp]:
  "currentOutput (markCycleStarted now data this) = currentOutput this"
  by (simp add: markCycleStarted_def)

lemma lineBuffer_markCycleStarted [simp]:
  "lineBuffer (markCycleStarted now data this) = lineBuffer this"
  by (simp add: markCycleStarted_def)

lemma takeLines_eq:
  "takeLines data this =
     (butlast (split (lineBuffer this @ data)),
      this\<lparr>lineBuffer := last (split (lineBuffer this @ data))\<rparr>)"
  by (simp add: takeLines_def Let_def split_nonempty)

lemma lineBuffer_handleOutput:
  "lineBuffer (handleOutput now data this) = last (split (lineBuffer this @ data))"
  by (simp add: handleOutput_def takeLines_eq)

lemma currentOutput_handleOutput:
  "currentOutput (handleOutput now data this) =
     currentOutput (fold (handleLine t) (butlast (split (lineBuffer this @ data))) this)"
  by (simp add: handleOutput_def takeLines_eq currentOutput_fold_cong)

lemma view_finalizedBy:
  "map snapshotView (finalizedBy now data this) =
     map snapshotView (finalizedByLines t (butlast (split (lineBuffer this @ data))) this)"
  by (simp add: finalizedBy_def takeLines_eq finalizedByLines_cong)

lemma finalizedFeed_lines:
  "LF \<notin> set (lineBuffer this) \<Longrightarrow>
   map snapshotView (finalizedFeed this chunks) =
     map snapshotView
       (finalizedByLines t (butlast (split (lineBuffer this @ concat (map snd chunks)))) this)"
proof (induction chunks arbitrary: this)
  case Nil
  then show ?case by (simp add: split_no_LF)
next
  case (Cons chunk chunks)
  obtain now data where chunk: "chunk = (now, data)"
    by (cases chunk)
  let ?B = "lineBuffer this"
  let ?rest = "concat (map snd chunks)"
  let ?this' = "handleOutput now data this"
  let ?ls1 = "butlast (split (?B @ data))"
  let ?ls2 = "butlast (split (last (split (?B @ data)) @ ?rest))"
  have buf: "lineBuffer ?this' = last (split (?B @ data))"
    by (rule lineBuffer_handleOutput)
  have "LF \<notin> set (lineBuffer ?this')"
    by (simp add: buf last_split_no_LF)
  from Cons.IH [OF this]
  have rest: "map snapshotView (finalizedFeed ?this' chunks) =
      map snapshotView (finalizedByLines t ?ls2 ?this')"
    by (simp add: buf)
  have "currentOutput ?this' = currentOutput (fold (handleLine t) ?ls1 this)"
    by (rule currentOutput_handleOutput)
  then have rest': "map snapshotView (finalizedByLines t ?ls2 ?this') =
      map snapshotView (finalizedByLines t ?ls2 (fold (handleLine t) ?ls1 this))"
    by (rule finalizedByLines_cong)
  have lines: "butlast (split (?B @ data @ ?rest)) = ?ls1 @ ?ls2"
    using split_append [of "?B @ data" ?rest]
    by (simp add: butlast_append split_nonempty)
  show ?case
    by (simp add: chunk rest rest' lines finalizedByLines_append
        view_finalizedBy [where t = t])
qed

text \<open>
  The two buffers of the parser after a run of chunks depend only on the concatenation
  of the chunks as well.
\<close>

lemma feed_buffers:
  "LF \<notin> set (lineBuffer this) \<Longrightarrow>
   lineBuffer (feed this chunks) = last (split (lineBuffer this @ concat (map snd chunks)))
   \<and> currentOutput (feed this chunks) =
       currentOutput (fold (handleLine t)
         (butlast (split (lineBuffer this @ concat (map snd chunks)))) this)"
proof (induction chunks arbitrary: this)
  case Nil
  then show ?case by (simp add: split_no_LF)
next
  case (Cons chunk chunks)
  obtain now data where chunk: "chunk = (now, data)"
    by (cases chunk)
  let ?B = "lineBuffer this"
  let ?rest = "concat (map snd chunks)"
  let ?this' = "handleOutput now data this"
  let ?ls1 = "butlast (split (?B @ data))"
  let ?ls2 = "butlast (split (last (split (?B @ data)) @ ?rest))"
  have buf: "lineBuffer ?this' = last (split (?B @ data))"
    by (rule lineBuffer_handleOutput)
  have "LF \<notin> set (lineBuffer ?this')"
    by (simp add: buf last_split_no_LF)
  from Cons.IH [OF this]
  have lb: "lineBuffer (feed ?this' chunks) = last (split (last (split (?B @ data)) @ ?rest))"
    and co: "currentOutput (feed ?this' chunks) = currentOutput (fold (handleLine t) ?ls2 ?this')"
    by (simp_all add: buf)
  have sp: "split (?B @ data @ ?rest) = ?ls1 @ split (last (split (?B @ data)) @ ?rest)"
    using split_append [of "?B @ data" ?rest] by simp
  have "currentOutput ?this' = currentOutput (fold (handleLine t) ?ls1 this)"
    by (rule currentOutput_handleOutput)
  then have "currentOutput (fold (handleLine t) ?ls2 ?this')
      = currentOutput (fold (handleLine t) ?ls2 (fold (handleLine t) ?ls1 this))"
    by (rule currentOutput_fold_cong)
  with co have co': "currentOutput (feed ?this' chunks)
      = currentOutput (fold (handleLine t) (?ls1 @ ?ls2) this)"
    by simp
  show ?case
    by (simp add: chunk lb co' sp butlast_append split_nonempty)
qed

lemma feed_buffers_chunk_boundary_independent:
  assumes "LF \<notin> set (lineBuffer this)"
  shows "lineBuffer (feed this chunks) = lineBuffer (feed this [(now, concat (map snd chunks))])"
    and "currentOutput (feed this chunks)
      = currentOutput (feed this [(now, concat (map snd chunks))])"
  using feed_buffers [OF assms, of chunks now]
    feed_buffers [OF assms, of "[(now, concat (map snd chunks))]" now]
  by simp_all

subsection \<open>Evaluating the parser on a given text\<close>

lemma removeSeparators_Nil [simp]: "removeSeparators [] = []"
  by (simp add: removeSeparators.simps)

lemma removeWatching_Nil [simp]: "removeWatching [] = []"
  by (simp add: removeWatching.simps)

lemma removeSeparators_Cons:
  "removeSeparators (c # cs) =
     (if 36 \<le> length (takeWhile (\<lambda>x. x = EQUALS) (c # cs))
      then removeSeparators (optChar LF (dropWhile (\<lambda>x. x = EQUALS) (c # cs)))
      else c # removeSeparators cs)"
  by (subst removeSeparators.simps) simp

lemma removeWatching_Cons:
  "removeWatching (c # cs) =
     (case stripPrefix (js ''Watching for file changes...'') (c # cs) of
        Some r \<Rightarrow> removeWatching (optChar LF r)
      | None \<Rightarrow> c # removeWatching cs)"
  by (subst removeWatching.simps) (simp split: option.splits)

lemmas eval_simps =
  js_def handleOutput_def takeLines_def markCycleStarted_def handleLine_def Let_def
  summaryMatchAt_def stripPrefix_def optChar_def trimEnd_def isWhiteSpace_def isDigit_def
  parseInt_def removeSeparators_Cons removeWatching_Cons newDaemon_def emptyState_def
  cycleStarted_def

lemma replicate_36:
  "replicate 36 x = [x, x, x, x, x, x, x, x, x, x, x, x, x, x, x, x, x, x,
                     x, x, x, x, x, x, x, x, x, x, x, x, x, x, x, x, x, x]"
  by (simp add: numeral_eq_Suc)

subsection \<open>Decoding buffer by buffer\<close>

lemma Buffer_toString_append:
  "wholeCharacters a \<Longrightarrow> Buffer_toString (a @ rest) = Buffer_toString a @ Buffer_toString rest"
proof (induction a rule: wholeCharacters.induct)
  case 1
  show ?case by simp
next
  case (2 b bs)
  show ?case
  proof (cases "leadOf b")
    case Single
    with "2.prems" have "wholeCharacters bs" by simp
    with "2.IH"(1) Single show ?thesis by simp
  next
    case Lead2
    with "2.prems" obtain c1 r1 where bs: "bs = c1 # r1" "continuation 0x80 0xBF c1"
      "wholeCharacters r1"
      by (cases bs) simp_all
    with "2.IH"(2) Lead2 have "Buffer_toString (r1 @ rest) = Buffer_toString r1 @ Buffer_toString rest"
      by simp
    with Lead2 bs show ?thesis by simp
  next
    case Lead3
    with "2.prems" obtain c1 c2 r2 where bs: "bs = c1 # c2 # r2"
      "continuation (lowerBoundary b) (upperBoundary b) c1" "continuation 0x80 0xBF c2"
      "wholeCharacters r2"
      by (simp split: list.splits)
    with "2.IH"(3) Lead3 have "Buffer_toString (r2 @ rest) = Buffer_toString r2 @ Buffer_toString rest"
      by simp
    with Lead3 bs show ?thesis by simp
  next
    case Lead4
    with "2.prems" obtain c1 c2 c3 r3 where bs: "bs = c1 # c2 # c3 # r3"
      "continuation (lowerBoundary b) (upperBoundary b) c1" "continuation 0x80 0xBF c2"
      "continuation 0x80 0xBF c3" "wholeCharacters r3"
      by (simp split: list.splits)
    with "2.IH"(4) Lead4 have "Buffer_toString (r3 @ rest) = Buffer_toString r3 @ Buffer_toString rest"
      by simp
    with Lead4 bs show ?thesis by simp
  next
    case NoLead
    with "2.prems" show ?thesis by simp
  qed
qed

lemma Buffer_toString_concat:
  "\<forall>c \<in> set chunks. wholeCharacters c \<Longrightarrow>
   Buffer_toString (concat chunks) = concat (map Buffer_toString chunks)"
  by (induction chunks) (simp_all add: Buffer_toString_append)

lemma finalizedFeed_chunk_boundary_independent:
  "LF \<notin> set (lineBuffer this) \<Longrightarrow>
   map snapshotView (finalizedFeed this chunks) =
     map snapshotView (finalizedFeed this [(now, concat (map snd chunks))])"
  using finalizedFeed_lines [of this chunks now]
  by (simp add: view_finalizedBy [where t = now])

lemma finalizedRun_decoded:
  "finalizedRun this chunks =
     finalizedFeed this (map (\<lambda>(now, data). (now, Buffer_toString data)) chunks)"
  by (induction chunks arbitrary: this) (auto simp: startSvelteCheck_onData_def)

lemma run_decoded:
  "run this chunks = feed this (map (\<lambda>(now, data). (now, Buffer_toString data)) chunks)"
  by (induction chunks arbitrary: this) (auto simp: startSvelteCheck_onData_def)

lemma decoded_concat:
  "\<forall>c \<in> set chunks. wholeCharacters (snd c) \<Longrightarrow>
   concat (map snd (map (\<lambda>(now, data). (now, Buffer_toString data)) chunks))
     = Buffer_toString (concat (map snd chunks))"
proof -
  assume "\<forall>c \<in> set chunks. wholeCharacters (snd c)"
  then have "\<forall>c \<in> set (map snd chunks). wholeCharacters c"
    by simp
  then have a: "Buffer_toString (concat (map snd chunks))
      = concat (map Buffer_toString (map snd chunks))"
    by (rule Buffer_toString_concat)
  have b: "map snd (map (\<lambda>(now, data). (now, Buffer_toString data)) chunks)
      = map Buffer_toString (map snd chunks)"
    by (induction chunks) auto
  show ?thesis
    by (simp only: a b)
qed

lemmas decode_simps =
  utf8_def leadOf_def continuation_def lowerBoundary_def upperBoundary_def utf16_def

text \<open>
  Claim C1, amended. Whatever way a stream is cut into buffers of whole characters
  (no cut inside a multi-byte UTF-8 character; any cut of an ASCII stream is one),
  the listener of the output streams, given the buffers in order, commits the same
  snapshots, in the same order and with the same \<^verbatim>\<open>output\<close>, \<^verbatim>\<open>hasErrors\<close>,
  \<^verbatim>\<open>hasWarnings\<close> and \<^verbatim>\<open>isComplete\<close>, as when it is given the whole stream as one
  buffer. The parser starts with no line feed in its line buffer, which holds for a new
  daemon, after a restart and after every buffer.
\<close>

theorem C1_whole_character_chunks:
  assumes "LF \<notin> set (lineBuffer this)"
    and "\<forall>c \<in> set chunks. wholeCharacters (snd c)"
  shows "map snapshotView (finalizedRun this chunks) =
     map snapshotView (finalizedRun this [(now, concat (map snd chunks))])"
proof -
  let ?decoded = "map (\<lambda>(now, data). (now, Buffer_toString data)) chunks"
  have "map snapshotView (finalizedRun this chunks) = map snapshotView (finalizedFeed this ?decoded)"
    by (simp add: finalizedRun_decoded)
  also have "\<dots> = map snapshotView (finalizedFeed this [(now, concat (map snd ?decoded))])"
    using assms(1) by (rule finalizedFeed_chunk_boundary_independent)
  also have "concat (map snd ?decoded) = Buffer_toString (concat (map snd chunks))"
    using assms(2) by (rule decoded_concat)
  finally show ?thesis
    by (simp add: finalizedRun_decoded)
qed

theorem C1_witness:
  "map snapshotView (finalizedRun (newDaemon 0 [] None)
     [(1, [0xC3, 0xA9, 0x0A] @ utf8 ''svelte-check found 1 err''),
      (2, utf8 ''or and 0 warnings\<newline>'')]) =
   map snapshotView (finalizedRun (newDaemon 0 [] None)
     [(3, concat (map snd
        [(1 :: nat, [0xC3, 0xA9, 0x0A] @ utf8 ''svelte-check found 1 err''),
         (2 :: nat, utf8 ''or and 0 warnings\<newline>'')]))]) \<and>
   map snapshotView (finalizedRun (newDaemon 0 [] None)
     [(1, [0xC3, 0xA9, 0x0A] @ utf8 ''svelte-check found 1 err''),
      (2, utf8 ''or and 0 warnings\<newline>'')]) =
   [([0xE9, LF] @ js ''svelte-check found 1 error and 0 warnings'', True, False, True)]"
proof -
  let ?chunks = "[(1 :: nat, [0xC3, 0xA9, 0x0A] @ utf8 ''svelte-check found 1 err''),
      (2 :: nat, utf8 ''or and 0 warnings\<newline>'')]"
  have h: "LF \<notin> set (lineBuffer (newDaemon 0 [] None))"
    by (simp add: newDaemon_def)
  have w: "\<forall>c \<in> set ?chunks. wholeCharacters (snd c)"
    by (simp add: decode_simps)
  have v: "map snapshotView (finalizedRun (newDaemon 0 [] None) ?chunks) =
   [([0xE9, LF] @ js ''svelte-check found 1 error and 0 warnings'', True, False, True)]"
    by (simp add: decode_simps startSvelteCheck_onData_def finalizedBy_def snapshotView_def
        eval_simps)
  from v C1_whole_character_chunks [OF h w, of 3]
  show ?thesis
    by blast
qed

text \<open>
  Claim C1 as stated fails for a cut inside a character: each buffer is decoded on its
  own, so the two bytes of \<open>U+00E9\<close> in two buffers become two \<open>U+FFFD\<close> in the
  committed output.
\<close>

theorem C1_counterexample:
  "map snapshotView (finalizedRun (newDaemon 0 [] None)
     [(1, [0xC3]),
      (2, [0xA9, 0x0A] @ utf8 ''svelte-check found 0 errors and 0 warnings\<newline>'')])
   = [([0xFFFD, 0xFFFD, LF] @ js ''svelte-check found 0 errors and 0 warnings'',
       False, False, True)]
   \<and> map snapshotView (finalizedRun (newDaemon 0 [] None)
     [(3, concat (map snd
        [(1 :: nat, [0xC3]),
         (2 :: nat, [0xA9, 0x0A] @ utf8 ''svelte-check found 0 errors and 0 warnings\<newline>'')]))])
   = [([0xE9, LF] @ js ''svelte-check found 0 errors and 0 warnings'', False, False, True)]
   \<and> map snapshotView (finalizedRun (newDaemon 0 [] None)
     [(1, [0xC3]),
      (2, [0xA9, 0x0A] @ utf8 ''svelte-check found 0 errors and 0 warnings\<newline>'')])
   \<noteq> map snapshotView (finalizedRun (newDaemon 0 [] None)
     [(3, concat (map snd
        [(1 :: nat, [0xC3]),
         (2 :: nat, [0xA9, 0x0A] @ utf8 ''svelte-check found 0 errors and 0 warnings\<newline>'')]))])"
proof -
  have cut: "map snapshotView (finalizedRun (newDaemon 0 [] None)
     [(1, [0xC3]),
      (2, [0xA9, 0x0A] @ utf8 ''svelte-check found 0 errors and 0 warnings\<newline>'')])
   = [([0xFFFD, 0xFFFD, LF] @ js ''svelte-check found 0 errors and 0 warnings'',
       False, False, True)]"
    by (simp add: decode_simps startSvelteCheck_onData_def finalizedBy_def snapshotView_def
        eval_simps)
  have whole: "map snapshotView (finalizedRun (newDaemon 0 [] None)
     [(3, concat (map snd
        [(1 :: nat, [0xC3]),
         (2 :: nat, [0xA9, 0x0A] @ utf8 ''svelte-check found 0 errors and 0 warnings\<newline>'')]))])
   = [([0xE9, LF] @ js ''svelte-check found 0 errors and 0 warnings'', False, False, True)]"
    by (simp add: decode_simps startSvelteCheck_onData_def finalizedBy_def snapshotView_def
        eval_simps)
  have "[0xFFFD, 0xFFFD, LF] @ js ''svelte-check found 0 errors and 0 warnings''
      \<noteq> [0xE9, LF] @ js ''svelte-check found 0 errors and 0 warnings''"
    by simp
  with cut whole show ?thesis
    by simp
qed

lemma includes_js_length: "includes_js s pat \<Longrightarrow> length pat \<le> length s"
  by (induction s) (auto dest: prefix_length_le)

lemma includes_js_iff: "includes_js s pat \<longleftrightarrow> (\<exists>u v. s = u @ pat @ v)"
proof (induction s)
  case Nil
  show ?case by auto
next
  case (Cons c cs)
  show ?case
  proof
    assume "includes_js (c # cs) pat"
    then consider "prefix pat (c # cs)" | "includes_js cs pat" by auto
    then show "\<exists>u v. c # cs = u @ pat @ v"
    proof cases
      case 1
      then obtain v where "c # cs = pat @ v" by (auto simp: prefix_def)
      then have "c # cs = [] @ pat @ v" by simp
      then show ?thesis by blast
    next
      case 2
      with Cons obtain u v where "cs = u @ pat @ v" by auto
      then have "c # cs = (c # u) @ pat @ v" by simp
      then show ?thesis by blast
    qed
  next
    assume "\<exists>u v. c # cs = u @ pat @ v"
    then obtain u v where uv: "c # cs = u @ pat @ v" by auto
    show "includes_js (c # cs) pat"
    proof (cases u)
      case Nil
      with uv have "c # cs = pat @ v" by simp
      then have "prefix pat (c # cs)" by (rule prefixI)
      then show ?thesis by simp
    next
      case (Cons x u')
      with uv have "cs = u' @ pat @ v" by simp
      with Cons.IH show ?thesis by auto
    qed
  qed
qed

lemma LF_notin_cycleStarted: "LF \<notin> set cycleStarted"
  by (simp add: cycleStarted_def js_def)

lemma handleOutput_no_LF:
  assumes "LF \<notin> set (lineBuffer this)" "LF \<notin> set data" "\<not> includes_js data cycleStarted"
  shows "handleOutput now data this = this\<lparr>lineBuffer := lineBuffer this @ data\<rparr>"
  using assms
  by (simp add: handleOutput_def takeLines_eq markCycleStarted_def split_no_LF)

lemma lastCompleteState_handleLine_plain:
  "summaryMatch line = None \<Longrightarrow>
   lastCompleteState (handleLine now line this) = lastCompleteState this"
  by (simp add: handleLine_def)

lemma lastCompleteState_fold_plain:
  "\<forall>l \<in> set ls. summaryMatch l = None \<Longrightarrow>
   lastCompleteState (fold (handleLine now) ls this) = lastCompleteState this"
  by (induction ls arbitrary: this) (simp_all add: lastCompleteState_handleLine_plain)

lemma isComplete_handleLine:
  "isComplete (lastCompleteState this) \<Longrightarrow>
   isComplete (lastCompleteState (handleLine now line this))"
  by (simp add: handleLine_def Let_def split: option.splits prod.splits)

lemma isComplete_fold_handleLine:
  "isComplete (lastCompleteState this) \<Longrightarrow>
   isComplete (lastCompleteState (fold (handleLine now) ls this))"
  by (induction ls arbitrary: this) (simp_all add: isComplete_handleLine)

lemma lastCompleteState_handleOutput_plain:
  assumes "\<forall>l \<in> set (butlast (split (lineBuffer this @ data))). summaryMatch l = None"
  shows "lastCompleteState (handleOutput now data this) =
     (if includes_js data cycleStarted
      then (lastCompleteState this)\<lparr>isComplete := False, lastUpdate := now\<rparr>
      else lastCompleteState this)"
  using assms
  by (simp add: handleOutput_def takeLines_eq lastCompleteState_fold_plain markCycleStarted_def)

lemma isComplete_handleOutput_no_marker:
  assumes "\<not> includes_js data cycleStarted" "isComplete (lastCompleteState this)"
  shows "isComplete (lastCompleteState (handleOutput now data this))"
  using assms
  by (simp add: handleOutput_def takeLines_eq markCycleStarted_def isComplete_fold_handleLine)

text \<open>
  Claim C10, amended. A chunk that completes no summary line sets \<^verbatim>\<open>isComplete\<close> to
  false, with a new \<^verbatim>\<open>lastUpdate\<close> and nothing else of the snapshot changed, if the
  string of that chunk contains the whole text \<^verbatim>\<open>Getting Svelte diagnostics...\<close>, and
  leaves the snapshot as it was if it does not. Whatever a chunk completes,
  \<^verbatim>\<open>isComplete\<close> goes from true to false only if the string of that chunk contains the
  whole text. When the text is cut in two and arrives as two consecutive chunks, the
  snapshot is left as it was after each of them, although the line buffer then holds the
  whole text again.
\<close>

theorem C10_marker_is_tested_on_the_chunk:
  "((\<forall>l \<in> set (butlast (split (lineBuffer this @ data))). summaryMatch l = None) \<longrightarrow>
      lastCompleteState (handleOutput now data this) =
        (if includes_js data cycleStarted
         then (lastCompleteState this)\<lparr>isComplete := False, lastUpdate := now\<rparr>
         else lastCompleteState this))
   \<and> (isComplete (lastCompleteState this)
        \<and> \<not> isComplete (lastCompleteState (handleOutput now data this))
      \<longrightarrow> includes_js data cycleStarted)
   \<and> (a @ b = cycleStarted \<and> a \<noteq> [] \<and> b \<noteq> [] \<and> LF \<notin> set (lineBuffer this) \<longrightarrow>
        lastCompleteState (handleOutput n1 a this) = lastCompleteState this \<and>
        lastCompleteState (handleOutput n2 b (handleOutput n1 a this)) = lastCompleteState this \<and>
        lineBuffer (handleOutput n2 b (handleOutput n1 a this)) = lineBuffer this @ cycleStarted)"
proof (intro conjI impI)
  assume "\<forall>l \<in> set (butlast (split (lineBuffer this @ data))). summaryMatch l = None"
  then show "lastCompleteState (handleOutput now data this) =
        (if includes_js data cycleStarted
         then (lastCompleteState this)\<lparr>isComplete := False, lastUpdate := now\<rparr>
         else lastCompleteState this)"
    by (rule lastCompleteState_handleOutput_plain)
next
  assume "isComplete (lastCompleteState this)
        \<and> \<not> isComplete (lastCompleteState (handleOutput now data this))"
  then show "includes_js data cycleStarted"
    using isComplete_handleOutput_no_marker [of data this now] by blast
next
  assume h: "a @ b = cycleStarted \<and> a \<noteq> [] \<and> b \<noteq> [] \<and> LF \<notin> set (lineBuffer this)"
  then have len: "length a < length cycleStarted" "length b < length cycleStarted"
    by (metis length_append length_greater_0_conv less_add_same_cancel1,
        metis length_append length_greater_0_conv less_add_same_cancel2)
  then have na: "\<not> includes_js a cycleStarted" and nb: "\<not> includes_js b cycleStarted"
    using includes_js_length [of a cycleStarted] includes_js_length [of b cycleStarted]
    by auto
  from h LF_notin_cycleStarted have lf: "LF \<notin> set a" "LF \<notin> set b"
    by (metis Un_iff set_append)+
  from h have buf: "LF \<notin> set (lineBuffer this)" by simp
  have s1: "handleOutput n1 a this = this\<lparr>lineBuffer := lineBuffer this @ a\<rparr>"
    by (rule handleOutput_no_LF [OF buf lf(1) na])
  have buf1: "LF \<notin> set (lineBuffer (handleOutput n1 a this))"
    using buf lf(1) by (simp add: s1)
  have s2: "handleOutput n2 b (handleOutput n1 a this) =
      (handleOutput n1 a this)\<lparr>lineBuffer := lineBuffer (handleOutput n1 a this) @ b\<rparr>"
    by (rule handleOutput_no_LF [OF buf1 lf(2) nb])
  show "lastCompleteState (handleOutput n1 a this) = lastCompleteState this"
    by (simp add: s1)
  show "lastCompleteState (handleOutput n2 b (handleOutput n1 a this)) = lastCompleteState this"
    by (simp add: s2) (simp add: s1)
  show "lineBuffer (handleOutput n2 b (handleOutput n1 a this)) = lineBuffer this @ cycleStarted"
    using h by (simp add: s2) (simp add: s1)
qed

lemma complete_daemon:
  "handleOutput 10 (js ''svelte-check found 0 errors and 0 warnings\<newline>'') (newDaemon 0 [] None)
     = (newDaemon 0 [] None)
         \<lparr>lastCompleteState :=
            \<lparr>outputText = js ''svelte-check found 0 errors and 0 warnings'',
             hasErrors = False, hasWarnings = False, isComplete = True, lastUpdate = 10\<rparr>\<rparr>"
  by (simp add: eval_simps)

theorem C10_witness:
  "lastCompleteState (handleOutput 20 (js ''Getting Svelte diagnostics...\<newline>'')
      (handleOutput 10 (js ''svelte-check found 0 errors and 0 warnings\<newline>'')
         (newDaemon 0 [] None)))
     = \<lparr>outputText = js ''svelte-check found 0 errors and 0 warnings'',
        hasErrors = False, hasWarnings = False, isComplete = False, lastUpdate = 20\<rparr>
   \<and> includes_js (js ''Getting Svelte diagnostics...\<newline>'') cycleStarted
   \<and> lastCompleteState (handleOutput 30 (js ''nostics...'')
        (handleOutput 20 (js ''Getting Svelte diag'')
          (handleOutput 10 (js ''svelte-check found 0 errors and 0 warnings\<newline>'')
             (newDaemon 0 [] None))))
      = \<lparr>outputText = js ''svelte-check found 0 errors and 0 warnings'',
         hasErrors = False, hasWarnings = False, isComplete = True, lastUpdate = 10\<rparr>
   \<and> lineBuffer (handleOutput 30 (js ''nostics...'')
        (handleOutput 20 (js ''Getting Svelte diag'')
          (handleOutput 10 (js ''svelte-check found 0 errors and 0 warnings\<newline>'')
             (newDaemon 0 [] None))))
      = cycleStarted"
proof -
  let ?d1 = "handleOutput 10 (js ''svelte-check found 0 errors and 0 warnings\<newline>'')
         (newDaemon 0 [] None)"
  let ?marker = "js ''Getting Svelte diagnostics...\<newline>''"
  have lcs: "lastCompleteState ?d1 =
      \<lparr>outputText = js ''svelte-check found 0 errors and 0 warnings'',
       hasErrors = False, hasWarnings = False, isComplete = True, lastUpdate = 10\<rparr>"
    and buf: "lineBuffer ?d1 = []"
    by (simp_all add: complete_daemon) (simp add: newDaemon_def)
  have plain: "\<forall>l \<in> set (butlast (split (lineBuffer ?d1 @ ?marker))). summaryMatch l = None"
    by (simp add: buf) (simp add: js_def summaryMatchAt_def stripPrefix_def)
  have inc: "includes_js ?marker cycleStarted"
    by (simp add: cycleStarted_def js_def)
  have cut: "js ''Getting Svelte diag'' @ js ''nostics...'' = cycleStarted
     \<and> js ''Getting Svelte diag'' \<noteq> [] \<and> js ''nostics...'' \<noteq> []
     \<and> LF \<notin> set (lineBuffer ?d1)"
    by (simp add: buf) (simp add: cycleStarted_def js_def)
  from C10_marker_is_tested_on_the_chunk
      [of ?d1 ?marker 20 "js ''Getting Svelte diag''" "js ''nostics...''" 20 30]
    plain inc cut
  have "lastCompleteState (handleOutput 20 ?marker ?d1)
      = (lastCompleteState ?d1)\<lparr>isComplete := False, lastUpdate := 20\<rparr>"
    and "lastCompleteState (handleOutput 30 (js ''nostics...'')
        (handleOutput 20 (js ''Getting Svelte diag'') ?d1)) = lastCompleteState ?d1"
    and "lineBuffer (handleOutput 30 (js ''nostics...'')
        (handleOutput 20 (js ''Getting Svelte diag'') ?d1)) = lineBuffer ?d1 @ cycleStarted"
    by simp_all
  with inc show ?thesis
    by (simp add: lcs buf)
qed

text \<open>
  Claim C10 as stated fails for a chunk that contains the text and completes a summary
  line: the snapshot was complete before the chunk and is complete after it.
\<close>

theorem C10_counterexample:
  "includes_js
     (js ''Getting Svelte diagnostics...\<newline>svelte-check found 0 errors and 0 warnings\<newline>'')
     cycleStarted
   \<and> isComplete (lastCompleteState
        (handleOutput 10 (js ''svelte-check found 0 errors and 0 warnings\<newline>'')
           (newDaemon 0 [] None)))
   \<and> isComplete (lastCompleteState
        (handleOutput 20
           (js ''Getting Svelte diagnostics...\<newline>svelte-check found 0 errors and 0 warnings\<newline>'')
           (handleOutput 10 (js ''svelte-check found 0 errors and 0 warnings\<newline>'')
              (newDaemon 0 [] None))))"
proof -
  have "includes_js
     (js ''Getting Svelte diagnostics...\<newline>svelte-check found 0 errors and 0 warnings\<newline>'')
     cycleStarted"
    by (simp add: cycleStarted_def js_def)
  moreover have "isComplete (lastCompleteState
        (handleOutput 20
           (js ''Getting Svelte diagnostics...\<newline>svelte-check found 0 errors and 0 warnings\<newline>'')
           ((newDaemon 0 [] None)
         \<lparr>lastCompleteState :=
            \<lparr>outputText = js ''svelte-check found 0 errors and 0 warnings'',
             hasErrors = False, hasWarnings = False, isComplete = True, lastUpdate = 10\<rparr>\<rparr>)))"
    by (simp add: eval_simps)
  ultimately show ?thesis
    by (simp add: complete_daemon)
qed

text \<open>
  Claim C2. A cycle-started marker that comes after the last summary line should leave
  the snapshot with \<^verbatim>\<open>isComplete = false\<close>. \<^verbatim>\<open>handleOutput\<close> tests the marker on the
  raw chunk before it processes the lines of that chunk, so a summary line that comes
  earlier in the same chunk is processed afterwards and the snapshot is left with
  \<^verbatim>\<open>isComplete = true\<close>. The same text in two chunks, cut after the summary line,
  leaves \<^verbatim>\<open>isComplete = false\<close>.
\<close>

theorem C2_summary_and_marker_in_one_chunk:
  "isComplete (lastCompleteState (handleOutput 1
     (js ''svelte-check found 0 errors and 0 warnings\<newline>Getting Svelte diagnostics...\<newline>'')
     (newDaemon 0 [] None)))
   \<and> \<not> isComplete (lastCompleteState
       (handleOutput 2 (js ''Getting Svelte diagnostics...\<newline>'')
         (handleOutput 1 (js ''svelte-check found 0 errors and 0 warnings\<newline>'')
           (newDaemon 0 [] None))))"
  by (simp add: eval_simps)

subsection \<open>The summary line\<close>

lemma stripPrefix_append [simp]: "stripPrefix p (p @ r) = Some r"
  by (simp add: stripPrefix_def)

lemma span_digits:
  "\<forall>c \<in> set g. isDigit c \<Longrightarrow> \<not> isDigit x \<Longrightarrow>
   takeWhile isDigit (g @ x # r) = g \<and> dropWhile isDigit (g @ x # r) = x # r"
  by (induction g) auto

lemma summaryMatchAt_phrase:
  assumes g1: "g1 \<noteq> []" "\<forall>c \<in> set g1. isDigit c"
    and g2: "g2 \<noteq> []" "\<forall>c \<in> set g2. isDigit c"
    and pl: "pl = [] \<or> pl = [LOWER_S]"
  shows "summaryMatchAt (js ''svelte-check found '' @ g1 @ js '' error'' @ pl @ js '' and ''
           @ g2 @ js '' warning'' @ post) = Some (g1, g2)"
proof -
  have sp: "\<not> isDigit 0x20"
    by (simp add: isDigit_def)
  have e: "js '' error'' = 0x20 # js ''error''" and w: "js '' warning'' = 0x20 # js ''warning''"
    by (simp_all add: js_def)
  have d1: "takeWhile isDigit (g1 @ js '' error'' @ pl @ js '' and '' @ g2 @ js '' warning'' @ post) = g1"
    "dropWhile isDigit (g1 @ js '' error'' @ pl @ js '' and '' @ g2 @ js '' warning'' @ post)
      = js '' error'' @ pl @ js '' and '' @ g2 @ js '' warning'' @ post"
    using span_digits [OF g1(2) sp] by (simp_all add: e)
  have d2: "takeWhile isDigit (g2 @ js '' warning'' @ post) = g2"
    "dropWhile isDigit (g2 @ js '' warning'' @ post) = js '' warning'' @ post"
    using span_digits [OF g2(2) sp] by (simp_all add: w)
  have opt: "optChar LOWER_S (pl @ js '' and '' @ g2 @ js '' warning'' @ post)
      = js '' and '' @ g2 @ js '' warning'' @ post"
    using pl by (auto simp: optChar_def js_def)
  show ?thesis
    unfolding summaryMatchAt_def
    by (simp only: stripPrefix_append option.case Let_def d1 d2 opt g1 g2 if_False)
qed

lemma summaryMatch_skip:
  "\<forall>i < length pre. summaryMatchAt (drop i (pre @ s)) = None \<Longrightarrow>
   summaryMatch (pre @ s) = summaryMatch s"
proof (induction pre)
  case Nil
  show ?case by simp
next
  case (Cons c pre)
  from Cons.prems have "summaryMatchAt (drop 0 ((c # pre) @ s)) = None"
    by blast
  then have first: "summaryMatchAt (c # pre @ s) = None"
    by simp
  have "\<forall>i < length pre. summaryMatchAt (drop i (pre @ s)) = None"
  proof (intro allI impI)
    fix i assume "i < length pre"
    then have "Suc i < length (c # pre)" by simp
    with Cons.prems have "summaryMatchAt (drop (Suc i) ((c # pre) @ s)) = None"
      by blast
    then show "summaryMatchAt (drop i (pre @ s)) = None" by simp
  qed
  from Cons.IH [OF this] first show ?case by simp
qed

lemma summaryMatch_at_start:
  "summaryMatchAt s = Some m \<Longrightarrow> summaryMatch s = Some m"
  by (cases s) (simp_all add: summaryMatchAt_def stripPrefix_def js_def)

text \<open>
  Claim C4. A line whose first match of the summary pattern reports the digits \<open>g1\<close>
  for the errors and \<open>g2\<close> for the warnings (with \<^verbatim>\<open>error\<close> or \<^verbatim>\<open>errors\<close>, and
  anything before and after the summary) makes \<^verbatim>\<open>handleLine\<close> commit a snapshot with
  \<^verbatim>\<open>hasErrors\<close> true exactly when the number of errors is positive, \<^verbatim>\<open>hasWarnings\<close>
  true exactly when the number of warnings is positive, and \<^verbatim>\<open>isComplete = true\<close>. With
  zero errors and zero warnings both flags are false and the snapshot is complete.
\<close>

theorem C4_flags_of_summary_line:
  assumes "g1 \<noteq> []" "\<forall>c \<in> set g1. isDigit c" "g2 \<noteq> []" "\<forall>c \<in> set g2. isDigit c"
    and "pl = [] \<or> pl = [LOWER_S]"
    and "line = pre @ js ''svelte-check found '' @ g1 @ js '' error'' @ pl @ js '' and ''
           @ g2 @ js '' warning'' @ post"
    and "\<forall>i < length pre. summaryMatchAt (drop i line) = None"
  shows "hasErrors (lastCompleteState (handleLine now line this)) = (0 < parseInt g1)
       \<and> hasWarnings (lastCompleteState (handleLine now line this)) = (0 < parseInt g2)
       \<and> isComplete (lastCompleteState (handleLine now line this))"
proof -
  let ?phrase = "js ''svelte-check found '' @ g1 @ js '' error'' @ pl @ js '' and ''
           @ g2 @ js '' warning'' @ post"
  have "summaryMatch ?phrase = Some (g1, g2)"
    by (rule summaryMatch_at_start) (rule summaryMatchAt_phrase [OF assms(1-5)])
  moreover have "summaryMatch (pre @ ?phrase) = summaryMatch ?phrase"
    using assms(7) unfolding assms(6) by (rule summaryMatch_skip)
  ultimately have "summaryMatch line = Some (g1, g2)"
    by (simp add: assms(6))
  then show ?thesis
    by (simp add: handleLine_def Let_def)
qed

theorem C4_witness:
  "\<not> hasErrors (lastCompleteState (handleLine 1
         (js ''> svelte-check found 0 errors and 0 warnings in 0 files'') (newDaemon 0 [] None)))
   \<and> \<not> hasWarnings (lastCompleteState (handleLine 1
         (js ''> svelte-check found 0 errors and 0 warnings in 0 files'') (newDaemon 0 [] None)))
   \<and> isComplete (lastCompleteState (handleLine 1
         (js ''> svelte-check found 0 errors and 0 warnings in 0 files'') (newDaemon 0 [] None)))"
proof -
  have g: "js ''0'' \<noteq> []" "\<forall>c \<in> set (js ''0''). isDigit c"
    by (simp_all add: js_def isDigit_def)
  have pl: "[LOWER_S] = [] \<or> [LOWER_S] = [LOWER_S]"
    by simp
  have line: "js ''> svelte-check found 0 errors and 0 warnings in 0 files''
       = js ''> '' @ js ''svelte-check found '' @ js ''0'' @ js '' error'' @ [LOWER_S]
         @ js '' and '' @ js ''0'' @ js '' warning'' @ js ''s in 0 files''"
    by (simp add: js_def)
  have first: "\<forall>i < length (js ''> '').
      summaryMatchAt (drop i (js ''> svelte-check found 0 errors and 0 warnings in 0 files''))
        = None"
    by (simp add: js_def less_Suc_eq numeral_2_eq_2 summaryMatchAt_def stripPrefix_def)
  have zero: "parseInt (js ''0'') = 0"
    by (simp add: parseInt_def js_def isDigit_def)
  from C4_flags_of_summary_line [OF g g pl line first, of 1 "newDaemon 0 [] None"]
  show ?thesis
    by (simp only: zero less_irrefl simp_thms)
qed

subsection \<open>The committed output\<close>

lemma takeWhile_before: "\<not> P x \<Longrightarrow> takeWhile P (l @ x # r) = takeWhile P l"
  by (induction l) auto

lemma takeWhile_eq_replicate: "takeWhile (\<lambda>c. c = a) l = replicate (length (takeWhile (\<lambda>c. c = a) l)) a"
  by (induction l) auto

lemma long_run_includes:
  assumes "36 \<le> length (takeWhile (\<lambda>c. c = EQUALS) l)"
  shows "prefix separatorRun l"
proof -
  let ?n = "length (takeWhile (\<lambda>c. c = EQUALS) l)"
  have "l = takeWhile (\<lambda>c. c = EQUALS) l @ dropWhile (\<lambda>c. c = EQUALS) l"
    by simp
  also have "takeWhile (\<lambda>c. c = EQUALS) l = replicate ?n EQUALS"
    by (rule takeWhile_eq_replicate)
  also have "replicate ?n EQUALS = replicate 36 EQUALS @ replicate (?n - 36) EQUALS"
    using assms by (simp flip: replicate_add)
  finally have "l = separatorRun @ replicate (?n - 36) EQUALS @ dropWhile (\<lambda>c. c = EQUALS) l"
    by (simp add: separatorRun_def)
  then show ?thesis
    by (rule prefixI)
qed

lemma removeSeparators_separator_line:
  assumes "isSeparatorLine l"
  shows "removeSeparators (l @ LF # rest) = removeSeparators rest"
proof -
  from assms have all: "\<forall>c \<in> set l. c = EQUALS" and len: "36 \<le> length l"
    by (simp_all add: isSeparatorLine_def)
  from all have tw: "takeWhile (\<lambda>c. c = EQUALS) (l @ LF # rest) = l"
    and dw: "dropWhile (\<lambda>c. c = EQUALS) (l @ LF # rest) = LF # rest"
    by (induction l) auto
  show ?thesis
    by (subst removeSeparators.simps) (simp add: tw dw len optChar_def)
qed

lemma removeSeparators_plain_line:
  "\<not> includes_js l separatorRun \<Longrightarrow>
   removeSeparators (l @ LF # rest) = l @ LF # removeSeparators rest"
proof (induction l)
  case Nil
  show ?case
    by (subst removeSeparators.simps) simp
next
  case (Cons c l)
  from Cons.prems have np: "\<not> prefix separatorRun (c # l)" and ni: "\<not> includes_js l separatorRun"
    by simp_all
  have "takeWhile (\<lambda>x. x = EQUALS) ((c # l) @ LF # rest) = takeWhile (\<lambda>x. x = EQUALS) (c # l)"
    by (rule takeWhile_before) simp
  moreover have "\<not> 36 \<le> length (takeWhile (\<lambda>x. x = EQUALS) (c # l))"
    using np long_run_includes by blast
  ultimately have short: "\<not> 36 \<le> length (takeWhile (\<lambda>x. x = EQUALS) (c # l @ LF # rest))"
    by simp
  have "removeSeparators (c # l @ LF # rest) = c # removeSeparators (l @ LF # rest)"
    by (subst removeSeparators.simps) (use short in simp)
  with Cons.IH [OF ni] show ?case by simp
qed

lemma removeSeparators_lines:
  "\<forall>l \<in> set ls. isSeparatorLine l \<or> \<not> includes_js l separatorRun \<Longrightarrow>
   removeSeparators (unlines_js ls) = unlines_js (filter (\<lambda>l. \<not> isSeparatorLine l) ls)"
proof (induction ls)
  case Nil
  show ?case by (simp add: unlines_js_def)
next
  case (Cons l ls)
  then have IH: "removeSeparators (unlines_js ls) = unlines_js (filter (\<lambda>l. \<not> isSeparatorLine l) ls)"
    by simp
  show ?case
  proof (cases "isSeparatorLine l")
    case True
    then show ?thesis
      using IH removeSeparators_separator_line [of l "unlines_js ls"]
      by (simp add: unlines_js_def)
  next
    case False
    with Cons.prems have "\<not> includes_js l separatorRun" by simp
    then show ?thesis
      using IH False removeSeparators_plain_line [of l "unlines_js ls"]
      by (simp add: unlines_js_def)
  qed
qed

lemma LF_notin_watchingFooter: "LF \<notin> set watchingFooter"
  by (simp add: watchingFooter_def js_def)

lemma prefix_before:
  assumes "prefix p (a @ x # r)" "x \<notin> set p"
  shows "prefix p a"
proof -
  from assms(1) have "prefix p a \<or> (\<exists>us. p = a @ us \<and> prefix us (x # r))"
    by (simp add: prefix_append)
  then show ?thesis
  proof
    assume "prefix p a"
    then show ?thesis .
  next
    assume "\<exists>us. p = a @ us \<and> prefix us (x # r)"
    then obtain us where us: "p = a @ us" "prefix us (x # r)"
      by blast
    show ?thesis
    proof (cases us)
      case Nil
      with us show ?thesis by simp
    next
      case (Cons y ys)
      with us(2) have "y = x" by simp
      with Cons us(1) assms(2) show ?thesis by simp
    qed
  qed
qed

lemma removeWatching_footer_line:
  "removeWatching (watchingFooter @ LF # rest) = removeWatching rest"
  using watching_nonempty
  by (subst removeWatching.simps)
     (simp add: watchingFooter_def stripPrefix_def optChar_def)

lemma removeWatching_plain_line:
  "\<not> includes_js l watchingFooter \<Longrightarrow>
   removeWatching (l @ LF # rest) = l @ LF # removeWatching rest"
proof (induction l)
  case Nil
  have "\<not> prefix watchingFooter (LF # rest)"
    by (simp add: watchingFooter_def js_def)
  then show ?case
    by (subst removeWatching.simps) (simp add: stripPrefix_def flip: watchingFooter_def)
next
  case (Cons c l)
  from Cons.prems have np: "\<not> prefix watchingFooter (c # l)" and ni: "\<not> includes_js l watchingFooter"
    by simp_all
  have "\<not> prefix watchingFooter ((c # l) @ LF # rest)"
    using np prefix_before [OF _ LF_notin_watchingFooter] by blast
  then have "removeWatching (c # l @ LF # rest) = c # removeWatching (l @ LF # rest)"
    by (subst removeWatching.simps) (simp add: stripPrefix_def flip: watchingFooter_def)
  with Cons.IH [OF ni] show ?case by simp
qed

lemma removeWatching_lines:
  "\<forall>l \<in> set ls. l = watchingFooter \<or> \<not> includes_js l watchingFooter \<Longrightarrow>
   removeWatching (unlines_js ls) = unlines_js (filter (\<lambda>l. l \<noteq> watchingFooter) ls)"
proof (induction ls)
  case Nil
  show ?case by (simp add: unlines_js_def)
next
  case (Cons l ls)
  then have IH: "removeWatching (unlines_js ls) = unlines_js (filter (\<lambda>l. l \<noteq> watchingFooter) ls)"
    by simp
  show ?case
  proof (cases "l = watchingFooter")
    case True
    then show ?thesis
      using IH removeWatching_footer_line [of "unlines_js ls"]
      by (simp add: unlines_js_def)
  next
    case False
    with Cons.prems have "\<not> includes_js l watchingFooter" by simp
    then show ?thesis
      using IH False removeWatching_plain_line [of l "unlines_js ls"]
      by (simp add: unlines_js_def)
  qed
qed

lemma cleaned_lines:
  assumes "\<forall>l \<in> set ls. isSeparatorLine l \<or> \<not> includes_js l separatorRun"
    and "\<forall>l \<in> set ls. l = watchingFooter \<or> \<not> includes_js l watchingFooter"
  shows "trimEnd (removeWatching (removeSeparators (unlines_js ls))) = spec_cleanedOutput ls"
proof -
  have "removeWatching (removeSeparators (unlines_js ls))
      = removeWatching (unlines_js (filter (\<lambda>l. \<not> isSeparatorLine l) ls))"
    by (simp add: removeSeparators_lines [OF assms(1)])
  also have "\<dots> = unlines_js (filter (\<lambda>l. l \<noteq> watchingFooter) (filter (\<lambda>l. \<not> isSeparatorLine l) ls))"
    using assms(2) by (intro removeWatching_lines) simp
  finally show ?thesis
    by (simp add: spec_cleanedOutput_def conj_commute)
qed

lemma currentOutput_fold_plain:
  "\<forall>l \<in> set ls. summaryMatch l = None \<Longrightarrow>
   currentOutput (fold (handleLine now) ls this) = currentOutput this @ unlines_js ls"
proof (induction ls arbitrary: this)
  case Nil
  show ?case by (simp add: unlines_js_def)
next
  case (Cons l ls)
  then show ?case
    by (simp add: currentOutput_handleLine unlines_js_def)
qed

text \<open>
  Claim C5, amended. When a summary line finalizes a cycle that began with an empty
  accumulation buffer, the committed output is the text of the lines since then, the
  summary line included, with every run of at least 36 equals signs and every
  occurrence of \<^verbatim>\<open>Watching for file changes...\<close> removed, each with one line feed
  directly after it, wherever in a line it stands, and with trailing whitespace
  trimmed; the accumulation buffer is then empty. When every such run and occurrence is
  a whole line, the committed output is the text without its separator lines and its
  footer lines, trimmed.
\<close>

theorem C5_committed_output:
  assumes "currentOutput this = []"
    and "\<forall>l \<in> set ls. summaryMatch l = None"
    and "summaryMatch line \<noteq> None"
  shows "outputText (lastCompleteState (handleLine now line (fold (handleLine now) ls this)))
           = trimEnd (removeWatching (removeSeparators (unlines_js (ls @ [line]))))
       \<and> currentOutput (handleLine now line (fold (handleLine now) ls this)) = []
       \<and> ((\<forall>l \<in> set (ls @ [line]).
              (isSeparatorLine l \<or> \<not> includes_js l separatorRun) \<and>
              (l = watchingFooter \<or> \<not> includes_js l watchingFooter)) \<longrightarrow>
            outputText (lastCompleteState (handleLine now line (fold (handleLine now) ls this)))
              = spec_cleanedOutput (ls @ [line]))"
proof -
  let ?before = "fold (handleLine now) ls this"
  have acc: "currentOutput ?before = unlines_js ls"
    using assms(1,2) by (simp add: currentOutput_fold_plain)
  from assms(3) obtain g1 g2 where m: "summaryMatch line = Some (g1, g2)"
    by auto
  have out: "outputText (lastCompleteState (handleLine now line ?before))
      = trimEnd (removeWatching (removeSeparators (unlines_js (ls @ [line]))))"
    using m acc by (simp add: handleLine_def Let_def unlines_js_def)
  have buf: "currentOutput (handleLine now line ?before) = []"
    using m by (simp add: currentOutput_handleLine)
  have "outputText (lastCompleteState (handleLine now line ?before)) = spec_cleanedOutput (ls @ [line])"
    if "\<forall>l \<in> set (ls @ [line]).
          (isSeparatorLine l \<or> \<not> includes_js l separatorRun) \<and>
          (l = watchingFooter \<or> \<not> includes_js l watchingFooter)"
    using that out cleaned_lines [of "ls @ [line]"] by auto
  with out buf show ?thesis
    by blast
qed

theorem C5_witness:
  "outputText (lastCompleteState (handleLine 2 (js ''svelte-check found 1 error and 0 warnings'')
         (fold (handleLine 2) [watchingFooter, cycleStarted, js ''a.svelte:1:1'', separatorRun]
            (newDaemon 0 [] None))))
       = js ''Getting Svelte diagnostics...\<newline>a.svelte:1:1\<newline>svelte-check found 1 error and 0 warnings''
   \<and> currentOutput (handleLine 2 (js ''svelte-check found 1 error and 0 warnings'')
         (fold (handleLine 2) [watchingFooter, cycleStarted, js ''a.svelte:1:1'', separatorRun]
            (newDaemon 0 [] None))) = []"
proof -
  let ?ls = "[watchingFooter, cycleStarted, js ''a.svelte:1:1'', separatorRun]"
  let ?line = "js ''svelte-check found 1 error and 0 warnings''"
  have h1: "currentOutput (newDaemon 0 [] None) = []"
    by (simp add: newDaemon_def)
  have h2: "\<forall>l \<in> set ?ls. summaryMatch l = None"
    by (simp add: watchingFooter_def cycleStarted_def separatorRun_def replicate_36 js_def
        summaryMatchAt_def stripPrefix_def)
  have h3: "summaryMatch ?line \<noteq> None"
    by (simp add: js_def summaryMatchAt_def stripPrefix_def optChar_def isDigit_def)
  have h4: "\<forall>l \<in> set (?ls @ [?line]).
         (isSeparatorLine l \<or> \<not> includes_js l separatorRun) \<and>
         (l = watchingFooter \<or> \<not> includes_js l watchingFooter)"
    by (simp add: watchingFooter_def cycleStarted_def separatorRun_def replicate_36 js_def
        isSeparatorLine_def)
  have v: "spec_cleanedOutput (?ls @ [?line])
      = js ''Getting Svelte diagnostics...\<newline>a.svelte:1:1\<newline>svelte-check found 1 error and 0 warnings''"
    by (simp add: spec_cleanedOutput_def unlines_js_def watchingFooter_def cycleStarted_def
        separatorRun_def replicate_36 js_def isSeparatorLine_def trimEnd_def isWhiteSpace_def)
  from C5_committed_output [OF h1 h2 h3, of 2] h4
  have "outputText (lastCompleteState (handleLine 2 ?line (fold (handleLine 2) ?ls (newDaemon 0 [] None))))
      = spec_cleanedOutput (?ls @ [?line])"
    and "currentOutput (handleLine 2 ?line (fold (handleLine 2) ?ls (newDaemon 0 [] None))) = []"
    by blast+
  with v show ?thesis
    by (simp only: simp_thms)
qed

text \<open>
  Claim C5 as stated fails on a line that holds a run of equals signs and other text:
  the line is no separator line, yet the run and the line feed after it are removed, and
  what is left of the line is joined to the next line.
\<close>

theorem C5_counterexample:
  "outputText (lastCompleteState (handleLine 1 (js ''svelte-check found 0 errors and 0 warnings'')
      (fold (handleLine 1) [js ''// '' @ replicate 36 EQUALS] (newDaemon 0 [] None))))
     = js ''// svelte-check found 0 errors and 0 warnings''
   \<and> outputText (lastCompleteState (handleLine 1 (js ''svelte-check found 0 errors and 0 warnings'')
      (fold (handleLine 1) [js ''// '' @ replicate 36 EQUALS] (newDaemon 0 [] None))))
     \<noteq> spec_cleanedOutput
         [js ''// '' @ replicate 36 EQUALS, js ''svelte-check found 0 errors and 0 warnings'']"
  by (simp add: eval_simps spec_cleanedOutput_def unlines_js_def isSeparatorLine_def
      watchingFooter_def replicate_36)

section \<open>Properties of the supervisor and the watcher\<close>

text \<open>
  Claim C7. \<^verbatim>\<open>restartSvelteCheck\<close> kills the child process if there is a handle,
  empties \<^verbatim>\<open>currentOutput\<close> and \<^verbatim>\<open>lineBuffer\<close>, sets the snapshot to the empty
  in-progress state, and then spawns the checker again; the known files are untouched.
\<close>

theorem C7_restart:
  "syscalls (restartSvelteCheck now this) =
     syscalls this
     @ (case svelteCheckProcess this of Some h \<Rightarrow> [Kill h] | None \<Rightarrow> [])
     @ [Spawn (svelteCheckArgs this) (workspacePath this)]
   \<and> currentOutput (restartSvelteCheck now this) = []
   \<and> lineBuffer (restartSvelteCheck now this) = []
   \<and> lastCompleteState (restartSvelteCheck now this) =
       \<lparr>outputText = [], hasErrors = False, hasWarnings = False, isComplete = False,
        lastUpdate = now\<rparr>
   \<and> svelteCheckProcess (restartSvelteCheck now this) =
       Some (length (syscalls (restartSvelteCheck now this)) - 1)
   \<and> knownFiles (restartSvelteCheck now this) = knownFiles this"
  by (simp add: restartSvelteCheck_def startSvelteCheck_def svelteCheckArgs_def
      emptyState_def Let_def split: option.splits)

text \<open>
  Claim C8. For a \<^verbatim>\<open>rename\<close> event of the big-changes watcher that names a file: a
  path that exists is added to the known files and nothing else changes; a path that does
  not exist and is known is removed and \<^verbatim>\<open>restartSvelteCheck\<close> runs once; a path that
  does not exist and is not known changes nothing. An event of any other type changes
  nothing.
\<close>

theorem C8_big_changes_event:
  assumes "name \<noteq> []"
  shows "(pathJoin [dir, name] \<in> files \<longrightarrow>
            onBigChange files pathJoin now dir (js ''rename'') (Some name) this =
              this\<lparr>knownFiles := insert (pathJoin [dir, name]) (knownFiles this)\<rparr>)
       \<and> (pathJoin [dir, name] \<notin> files \<and> pathJoin [dir, name] \<in> knownFiles this \<longrightarrow>
            onBigChange files pathJoin now dir (js ''rename'') (Some name) this =
              restartSvelteCheck now
                (this\<lparr>knownFiles := knownFiles this - {pathJoin [dir, name]}\<rparr>))
       \<and> (pathJoin [dir, name] \<notin> files \<and> pathJoin [dir, name] \<notin> knownFiles this \<longrightarrow>
            onBigChange files pathJoin now dir (js ''rename'') (Some name) this = this)
       \<and> (eventType \<noteq> js ''rename'' \<longrightarrow>
            onBigChange files pathJoin now dir eventType filename this = this)"
  using assms
  by (simp add: onBigChange_def Let_def split: option.splits)

theorem C8_witness:
  "js ''a.ts'' \<noteq> []
   \<and> posixJoin [js ''/w/src'', js ''a.ts''] \<in> {js ''/w/src/a.ts''}
   \<and> onBigChange {js ''/w/src/a.ts''} posixJoin 1 (js ''/w/src'') (js ''rename'')
        (Some (js ''a.ts'')) (startSvelteCheck (newDaemon 0 (js ''/w'') None))
       = (startSvelteCheck (newDaemon 0 (js ''/w'') None))
           \<lparr>knownFiles := {posixJoin [js ''/w/src'', js ''a.ts'']}\<rparr>
   \<and> posixJoin [js ''/w/src'', js ''a.ts''] \<notin> {}
   \<and> posixJoin [js ''/w/src'', js ''a.ts'']
        \<in> knownFiles ((startSvelteCheck (newDaemon 0 (js ''/w'') None))
             \<lparr>knownFiles := {posixJoin [js ''/w/src'', js ''a.ts'']}\<rparr>)
   \<and> onBigChange {} posixJoin 2 (js ''/w/src'') (js ''rename'') (Some (js ''a.ts''))
        ((startSvelteCheck (newDaemon 0 (js ''/w'') None))
           \<lparr>knownFiles := {posixJoin [js ''/w/src'', js ''a.ts'']}\<rparr>)
       = restartSvelteCheck 2
           ((startSvelteCheck (newDaemon 0 (js ''/w'') None))\<lparr>knownFiles := {}\<rparr>)
   \<and> posixJoin [js ''/w/src'', js ''a.ts''] \<notin> knownFiles (newDaemon 0 (js ''/w'') None)
   \<and> onBigChange {} posixJoin 3 (js ''/w/src'') (js ''rename'') (Some (js ''a.ts''))
        (newDaemon 0 (js ''/w'') None) = newDaemon 0 (js ''/w'') None
   \<and> js ''change'' \<noteq> js ''rename''
   \<and> onBigChange {js ''/w/src/a.ts''} posixJoin 4 (js ''/w/src'') (js ''change'')
        (Some (js ''a.ts'')) (newDaemon 0 (js ''/w'') None) = newDaemon 0 (js ''/w'') None"
proof -
  let ?p = "posixJoin [js ''/w/src'', js ''a.ts'']"
  let ?d0 = "newDaemon 0 (js ''/w'') None"
  let ?d1 = "startSvelteCheck ?d0"
  let ?d2 = "?d1\<lparr>knownFiles := {?p}\<rparr>"
  have n: "js ''a.ts'' \<noteq> []"
    by (simp add: js_def)
  have p: "?p \<in> {js ''/w/src/a.ts''}"
    by (simp add: posixJoin_def js_def)
  have k: "?p \<notin> knownFiles ?d0" "knownFiles ?d1 = {}"
    by (simp_all add: newDaemon_def startSvelteCheck_def)
  have e: "js ''change'' \<noteq> js ''rename''"
    by (simp add: js_def)
  have c1: "onBigChange {js ''/w/src/a.ts''} posixJoin 1 (js ''/w/src'') (js ''rename'')
        (Some (js ''a.ts'')) ?d1 = ?d2"
    using C8_big_changes_event [OF n, of posixJoin "js ''/w/src''" "{js ''/w/src/a.ts''}" 1 ?d1] p k
    by simp
  have c2: "onBigChange {} posixJoin 2 (js ''/w/src'') (js ''rename'') (Some (js ''a.ts'')) ?d2
       = restartSvelteCheck 2 (?d1\<lparr>knownFiles := {}\<rparr>)"
    using C8_big_changes_event [OF n, of posixJoin "js ''/w/src''" "{}" 2 ?d2]
    by simp
  have c3: "onBigChange {} posixJoin 3 (js ''/w/src'') (js ''rename'') (Some (js ''a.ts'')) ?d0 = ?d0"
    using C8_big_changes_event [OF n, of posixJoin "js ''/w/src''" "{}" 3 ?d0] k
    by simp
  have c4: "onBigChange {js ''/w/src/a.ts''} posixJoin 4 (js ''/w/src'') (js ''change'')
        (Some (js ''a.ts'')) ?d0 = ?d0"
    using C8_big_changes_event [OF n, of posixJoin "js ''/w/src''" "{js ''/w/src/a.ts''}" 4 ?d0
        "js ''change''" "Some (js ''a.ts'')"] e
    by simp
  from n p k(1) e c1 c2 c3 c4 show ?thesis
    by simp
qed

section \<open>Properties of the socket server\<close>

lemma trimStart_padded:
  assumes "\<forall>c \<in> set a. isWhiteSpace c" "tok \<noteq> []" "\<not> isWhiteSpace (hd tok)"
  shows "trimStart (a @ tok @ b) = tok @ b"
proof -
  from assms(2,3) have "dropWhile isWhiteSpace (tok @ b) = tok @ b"
    by (cases tok) simp_all
  with assms(1) show ?thesis
    by (simp add: trimStart_def dropWhile_append)
qed

lemma trimEnd_padded:
  assumes "\<forall>c \<in> set b. isWhiteSpace c" "tok \<noteq> []" "\<not> isWhiteSpace (last tok)"
  shows "trimEnd (tok @ b) = tok"
proof -
  from assms(2,3) have "dropWhile isWhiteSpace (rev tok) = rev tok"
    by (cases tok rule: rev_cases) simp_all
  with assms(1) show ?thesis
    by (simp add: trimEnd_def dropWhile_append)
qed

lemma trim_unpadded:
  "\<exists>a b. s = a @ trim s @ b \<and> (\<forall>c \<in> set a. isWhiteSpace c) \<and> (\<forall>c \<in> set b. isWhiteSpace c)"
proof -
  let ?a = "takeWhile isWhiteSpace s"
  let ?m = "dropWhile isWhiteSpace s"
  let ?b = "rev (takeWhile isWhiteSpace (rev ?m))"
  have "rev (takeWhile isWhiteSpace (rev ?m) @ dropWhile isWhiteSpace (rev ?m)) = ?m"
    by (simp only: takeWhile_dropWhile_id rev_rev_ident)
  then have "rev (dropWhile isWhiteSpace (rev ?m)) @ ?b = ?m"
    by (simp only: rev_append)
  then have m: "?m = trim s @ ?b"
    by (simp add: trim_def trimEnd_def trimStart_def)
  have "s = ?a @ ?m"
    by simp
  with m have "s = ?a @ trim s @ ?b"
    by simp
  moreover have "\<forall>c \<in> set ?a. isWhiteSpace c"
    by (auto dest: set_takeWhileD)
  moreover have "\<forall>c \<in> set ?b. isWhiteSpace c"
    by (auto dest: set_takeWhileD)
  ultimately show ?thesis
    by blast
qed

lemma trim_eq_iff:
  assumes "tok \<noteq> []" "\<not> isWhiteSpace (hd tok)" "\<not> isWhiteSpace (last tok)"
  shows "trim s = tok \<longleftrightarrow>
    (\<exists>a b. s = a @ tok @ b \<and> (\<forall>c \<in> set a. isWhiteSpace c) \<and> (\<forall>c \<in> set b. isWhiteSpace c))"
proof
  assume "trim s = tok"
  with trim_unpadded [of s] show "\<exists>a b. s = a @ tok @ b \<and> (\<forall>c \<in> set a. isWhiteSpace c)
      \<and> (\<forall>c \<in> set b. isWhiteSpace c)"
    by simp
next
  assume "\<exists>a b. s = a @ tok @ b \<and> (\<forall>c \<in> set a. isWhiteSpace c) \<and> (\<forall>c \<in> set b. isWhiteSpace c)"
  then obtain a b where s: "s = a @ tok @ b"
    and a: "\<forall>c \<in> set a. isWhiteSpace c" and b: "\<forall>c \<in> set b. isWhiteSpace c"
    by blast
  show "trim s = tok"
    by (simp add: trim_def s trimStart_padded [OF a assms(1,2)] trimEnd_padded [OF b assms(1,3)])
qed

lemma GET_STATUS_ends:
  "js ''GET_STATUS'' \<noteq> []"
  "\<not> isWhiteSpace (hd (js ''GET_STATUS''))"
  "\<not> isWhiteSpace (last (js ''GET_STATUS''))"
  by (simp_all add: js_def isWhiteSpace_def)

text \<open>
  Claim C6, amended. The \<^verbatim>\<open>'data'\<close> listener either writes the serialised current
  snapshot and ends the connection, or does nothing. It answers exactly the payloads
  that are \<^verbatim>\<open>GET_STATUS\<close> with any whitespace before and after it, since the payload
  is trimmed before it is compared.
\<close>

theorem C6_status_request:
  "(startServer_onData data this = [Write_JSON (lastCompleteState this), End_socket]
      \<or> startServer_onData data this = [])
   \<and> (startServer_onData data this = [Write_JSON (lastCompleteState this), End_socket] \<longleftrightarrow>
        (\<exists>a b. data = a @ js ''GET_STATUS'' @ b
           \<and> (\<forall>c \<in> set a. isWhiteSpace c) \<and> (\<forall>c \<in> set b. isWhiteSpace c)))"
  using trim_eq_iff [OF GET_STATUS_ends, of data]
  by (auto simp: startServer_onData_def getState_def Let_def)

theorem C6_witness:
  "startServer_onData (js '' GET_STATUS\<newline>'') (newDaemon 0 [] None)
     = [Write_JSON (lastCompleteState (newDaemon 0 [] None)), End_socket]"
proof -
  have "js '' GET_STATUS\<newline>'' = js '' '' @ js ''GET_STATUS'' @ js ''\<newline>''
      \<and> (\<forall>c \<in> set (js '' ''). isWhiteSpace c) \<and> (\<forall>c \<in> set (js ''\<newline>''). isWhiteSpace c)"
    by (simp add: js_def isWhiteSpace_def)
  then have "\<exists>a b. js '' GET_STATUS\<newline>'' = a @ js ''GET_STATUS'' @ b
      \<and> (\<forall>c \<in> set a. isWhiteSpace c) \<and> (\<forall>c \<in> set b. isWhiteSpace c)"
    by blast
  with C6_status_request [of "js '' GET_STATUS\<newline>''" "newDaemon 0 [] None"]
  show ?thesis
    by blast
qed

text \<open>
  Claim C6 as stated fails on a payload that differs from \<^verbatim>\<open>GET_STATUS\<close> by
  whitespace only: \<^verbatim>\<open>GET_STATUS\<close> followed by a line feed is answered.
\<close>

theorem C6_counterexample:
  "js ''GET_STATUS\<newline>'' \<noteq> js ''GET_STATUS''
   \<and> startServer_onData (js ''GET_STATUS\<newline>'') (newDaemon 0 [] None)
       = [Write_JSON (emptyState 0), End_socket]"
  by (simp add: startServer_onData_def getState_def newDaemon_def trim_def trimStart_def
      trimEnd_def isWhiteSpace_def js_def)

section \<open>Properties of the client\<close>

text \<open>
  Claim C9. When the socket file of the workspace does not exist,
  \<^verbatim>\<open>getStatusFromDaemon\<close> returns a promise that is already resolved with \<^verbatim>\<open>null\<close>;
  no socket is created, no timer is started and nothing is sent.
\<close>

theorem C9_no_socket_file:
  "getSocketPath pathJoin workspace \<notin> files \<Longrightarrow>
   getStatusFromDaemon files pathJoin workspace =
     \<lparr>promise = Some None, socket = NoSocket, timerPending = False, received = [], sent = []\<rparr>"
  by (simp add: getStatusFromDaemon_def)

theorem C9_witness:
  "(getStatusFromDaemon {} posixJoin (js ''/w'') :: DaemonState query)
       = \<lparr>promise = Some None, socket = NoSocket, timerPending = False,
          received = [], sent = []\<rparr>"
proof -
  have h: "getSocketPath posixJoin (js ''/w'') \<notin> {}"
    by simp
  from C9_no_socket_file [OF h] show ?thesis
    by simp
qed

lemma settled_step: "settled q \<Longrightarrow> settled (step p e q)"
  by (cases e) (auto simp: settled_def resolve_def)

lemma settled_fold: "settled q \<Longrightarrow> settled (fold (step p) es q)"
  by (induction es arbitrary: q) (simp_all add: settled_step)

lemma timerPending_step:
  "timerPending (step p e q) = (timerPending q \<and> e \<noteq> Timeout)"
  by (cases e) (auto simp: resolve_def)

lemma timerPending_fold:
  "timerPending (fold (step p) es q) = (timerPending q \<and> Timeout \<notin> set es)"
  by (induction es arbitrary: q) (auto simp: timerPending_step)

lemma promise_step_resolved:
  "promise q \<noteq> None \<Longrightarrow> promise (step p e q) = promise q"
  by (cases e) (auto simp: resolve_def)

lemma promise_fold_resolved:
  "promise q \<noteq> None \<Longrightarrow> promise (fold (step p) es q) = promise q"
  by (induction es arbitrary: q) (simp_all add: promise_step_resolved)

lemma promise_step_pending:
  "settled q \<Longrightarrow> promise q = None \<Longrightarrow>
   (promise (step p e q) \<noteq> None) = (e = End \<or> e = Error \<or> e = Timeout)"
  by (cases e) (auto simp: settled_def resolve_def)

lemma promise_fold_pending:
  "settled q \<Longrightarrow> promise q = None \<Longrightarrow>
   (promise (fold (step p) es q) \<noteq> None) = (End \<in> set es \<or> Error \<in> set es \<or> Timeout \<in> set es)"
proof (induction es arbitrary: q)
  case Nil
  then show ?case by simp
next
  case (Cons e es)
  show ?case
  proof (cases "e = End \<or> e = Error \<or> e = Timeout")
    case True
    with Cons.prems have "promise (step p e q) \<noteq> None"
      using promise_step_pending [of q p e] by blast
    then have "promise (fold (step p) es (step p e q)) \<noteq> None"
      by (simp add: promise_fold_resolved)
    with True show ?thesis by auto
  next
    case False
    with Cons.prems have "promise (step p e q) = None"
      using promise_step_pending [of q p e] by blast
    from Cons.IH [OF settled_step [OF Cons.prems(1)] this] False show ?thesis
      by auto
  qed
qed

text \<open>
  Claim C3, amended. When the socket file exists, the promise of
  \<^verbatim>\<open>getStatusFromDaemon\<close> is resolved exactly when the socket has ended, has failed or
  the timer has fired; once it is resolved the socket is closed. The timer is never
  cancelled: it is pending until it fires, also after the promise has been resolved by
  the end of the response or by an error.
\<close>

theorem C3_query_teardown:
  assumes "getSocketPath pathJoin workspace \<in> files"
  shows "(promise (fold (step JSON_parse) events (getStatusFromDaemon files pathJoin workspace))
            \<noteq> None
          \<longleftrightarrow> End \<in> set events \<or> Error \<in> set events \<or> Timeout \<in> set events)
       \<and> (promise (fold (step JSON_parse) events (getStatusFromDaemon files pathJoin workspace))
            \<noteq> None
          \<longrightarrow> socket (fold (step JSON_parse) events (getStatusFromDaemon files pathJoin workspace))
                = Closed)
       \<and> (timerPending (fold (step JSON_parse) events (getStatusFromDaemon files pathJoin workspace))
          \<longleftrightarrow> Timeout \<notin> set events)"
proof -
  let ?q0 = "getStatusFromDaemon files pathJoin workspace :: 'a query"
  from assms have q0: "settled ?q0" "promise ?q0 = None" "timerPending ?q0"
    by (simp_all add: getStatusFromDaemon_def settled_def)
  have "settled (fold (step JSON_parse) events ?q0)"
    using q0(1) by (rule settled_fold)
  then have "promise (fold (step JSON_parse) events ?q0) \<noteq> None
      \<longrightarrow> socket (fold (step JSON_parse) events ?q0) = Closed"
    by (simp add: settled_def)
  with promise_fold_pending [OF q0(1,2), of JSON_parse events] q0(3) show ?thesis
    by (simp add: timerPending_fold)
qed

theorem C3_witness:
  "promise (fold (step Some) [Connect, Data (js ''{}''), End, Timeout]
        (getStatusFromDaemon {getSocketPath posixJoin (js ''/w'')} posixJoin (js ''/w''))) \<noteq> None
   \<and> socket (fold (step Some) [Connect, Data (js ''{}''), End, Timeout]
        (getStatusFromDaemon {getSocketPath posixJoin (js ''/w'')} posixJoin (js ''/w''))) = Closed
   \<and> \<not> timerPending (fold (step Some) [Connect, Data (js ''{}''), End, Timeout]
        (getStatusFromDaemon {getSocketPath posixJoin (js ''/w'')} posixJoin (js ''/w'')))"
proof -
  have h: "getSocketPath posixJoin (js ''/w'') \<in> {getSocketPath posixJoin (js ''/w'')}"
    by simp
  from C3_query_teardown [OF h, of Some "[Connect, Data (js ''{}''), End, Timeout]"]
  show ?thesis
    by simp
qed

text \<open>
  Claim C3 as stated fails when the daemon answers: after the response has ended the
  promise is resolved with the parsed value and the timer is still pending.
\<close>

theorem C3_counterexample:
  "promise (fold (step Some) [Connect, Data (js ''{}''), End]
      (getStatusFromDaemon {getSocketPath posixJoin (js ''/w'')} posixJoin (js ''/w'')))
     = Some (Some (js ''{}''))
   \<and> timerPending (fold (step Some) [Connect, Data (js ''{}''), End]
      (getStatusFromDaemon {getSocketPath posixJoin (js ''/w'')} posixJoin (js ''/w'')))"
  by (simp add: getStatusFromDaemon_def resolve_def)

end
